theory Spec2Isabelle
  imports Main "HOL-Library.Sublist" "HOL-Library.List_Lexorder" "HOL-Library.Char_ord"
begin

section \<open>Builder.py: a shallow embedding\<close>

text \<open>
  The program is the class \<open>Builder\<close> of \<open>usr/local/lib/builder/Builder.py\<close>. Its methods
  are translated one by one, under their own names. Python strings are byte strings
  (\<open>string\<close>), the three regular expressions of the source are translated into recursive
  functions that follow the matching order of Python's \<open>re\<close> engine (leftmost match, greedy
  quantifiers, backtracking from the longest candidate), exceptions are values of the
  datatype \<open>error\<close>, and the object's mutable fields, the class-level list \<open>packageList\<close>
  and the file system it works on are fields of one record that every method takes and
  returns.
\<close>

subsection \<open>Characters and decimal numbers\<close>

definition newline :: char where
  "newline = CHR 0x0A"

definition dquote :: char where
  "dquote = CHR 0x22"

text \<open>\<open>\d\<close> in a byte-string pattern: the ten ASCII digits.\<close>

definition is_digit :: "char \<Rightarrow> bool" where
  "is_digit c = (c \<in> set ''0123456789'')"

text \<open>The character class \<open>[\d\.]\<close>.\<close>

definition is_verch :: "char \<Rightarrow> bool" where
  "is_verch c = (is_digit c \<or> c = CHR ''.'')"

definition digit_val :: "char \<Rightarrow> nat" where
  "digit_val c = of_char c - 48"

text \<open>\<open>int(g)\<close> for a group \<open>g\<close> matched by \<open>\d+\<close>: a non-negative, unbounded integer.\<close>

definition int_of_digits :: "string \<Rightarrow> nat" where
  "int_of_digits ds = foldl (\<lambda>a c. 10 * a + digit_val c) 0 ds"

definition digit_char :: "nat \<Rightarrow> char" where
  "digit_char d = ''0123456789'' ! d"

text \<open>\<open>n.__str__()\<close>: the decimal digits of \<open>n\<close>, without sign or leading zero.\<close>

function str_of_nat :: "nat \<Rightarrow> string" where
  "str_of_nat n = (if n < 10 then [digit_char n] else str_of_nat (n div 10) @ [digit_char (n mod 10)])"
  by pat_completeness auto
termination
  by (relation "measure id") auto

declare str_of_nat.simps [simp del]

subsection \<open>The regular expressions of the source\<close>

text \<open>\<open>strip_prefix p s\<close>: the literal \<open>p\<close> matches at the start of \<open>s\<close>; what follows it.\<close>

fun strip_prefix :: "string \<Rightarrow> string \<Rightarrow> string option" where
  "strip_prefix [] s = Some s"
| "strip_prefix (p # ps) [] = None"
| "strip_prefix (p # ps) (c # cs) = (if p = c then strip_prefix ps cs else None)"

text \<open>
  \<open>([\d\.]+\.)(\d+)\<close> on the text \<open>r\<close> that follows \<open>Version: \<close>. The greedy \<open>[\d\.]+\<close> first
  takes the whole run of digits and dots and then gives characters back one at a time; with
  \<open>k\<close> characters taken, \<open>\.\<close> has to match the character at index \<open>k\<close> and \<open>\d+\<close> at least
  one digit after it, of which it takes all. \<open>version_groups k r\<close> tries \<open>k\<close>, \<open>k - 1\<close>, ...,
  \<open>1\<close> and returns groups 2 and 3 of the first success.
\<close>

fun version_groups :: "nat \<Rightarrow> string \<Rightarrow> (string \<times> string) option" where
  "version_groups 0 r = None"
| "version_groups (Suc k) r =
     (case drop (Suc k) r of
        [] \<Rightarrow> version_groups k r
      | c # cs \<Rightarrow>
          if c = CHR ''.'' \<and> takeWhile is_digit cs \<noteq> []
          then Some (take (Suc k) r @ ''.'', takeWhile is_digit cs)
          else version_groups k r)"

text \<open>The pattern \<open>(Version: )([\d\.]+\.)(\d+)\<close> tried at the start of \<open>s\<close>.\<close>

definition version_match_here :: "string \<Rightarrow> (string \<times> string) option" where
  "version_match_here s =
     (case strip_prefix ''Version: '' s of
        None \<Rightarrow> None
      | Some r \<Rightarrow> version_groups (length (takeWhile is_verch r)) r)"

text \<open>
  \<open>re.search('(Version: )([\d\.]+\.)(\d+)', s)\<close>: the match at the leftmost position that has
  one, as (group 1, group 2, group 3); \<open>None\<close> as in Python.
\<close>

fun version_search :: "string \<Rightarrow> (string \<times> string \<times> string) option" where
  "version_search [] = None"
| "version_search (c # cs) =
     (case version_match_here (c # cs) of
        Some (g2, g3) \<Rightarrow> Some (''Version: '', g2, g3)
      | None \<Rightarrow> version_search cs)"

text \<open>
  \<open>re.sub('Version: [\d\.]+', repl, s)\<close>: every non-overlapping match, scanning from the left,
  is replaced by \<open>repl\<close>; the greedy class takes the whole run of digits and dots. The
  replacement the source passes (\<open>Version: \<close>, digits and dots) holds no backslash, so it is
  inserted as it is.
\<close>

function version_sub :: "string \<Rightarrow> string \<Rightarrow> string" where
  "version_sub repl [] = []"
| "version_sub repl (c # cs) =
     (case strip_prefix ''Version: '' (c # cs) of
        None \<Rightarrow> c # version_sub repl cs
      | Some r \<Rightarrow>
          if takeWhile is_verch r \<noteq> []
          then repl @ version_sub repl (dropWhile is_verch r)
          else c # version_sub repl cs)"
  by pat_completeness auto
termination
proof (relation "measure (\<lambda>(repl, s). length s)")
  show "wf (measure (\<lambda>(repl, s). length s))" by simp
next
  fix repl :: string and c :: char and cs :: string
  show "((repl, cs), (repl, c # cs)) \<in> measure (\<lambda>(repl, s). length s)" by simp
next
  fix repl :: string and c cs r
  assume r: "strip_prefix ''Version: '' (c # cs) = Some r"
  have shorter: "strip_prefix p s = Some t \<Longrightarrow> length t \<le> length s" for p s t
    by (induction p s rule: strip_prefix.induct) (auto split: if_splits)
  have "length (dropWhile is_verch r) \<le> length r"
    by (rule length_dropWhile_le)
  moreover have "length r < length (c # cs)"
    using r by (auto split: if_splits dest: shorter)
  ultimately show "((repl, dropWhile is_verch r), (repl, c # cs)) \<in> measure (\<lambda>(repl, s). length s)"
    by simp
next
  fix repl :: string and c :: char and cs :: string
  show "((repl, cs), (repl, c # cs)) \<in> measure (\<lambda>(repl, s). length s)" by simp
qed

text \<open>
  \<open>re.sub('.deb$', '', package)\<close>. \<open>.\<close> matches any character but a line feed, and \<open>$\<close>
  matches at the end of the string and just before a line feed that ends the string.
  \<open>deb_match_here s\<close> is the pattern tried at the start of \<open>s\<close>, returning what follows the
  four matched characters.
\<close>

definition deb_match_here :: "string \<Rightarrow> string option" where
  "deb_match_here s =
     (case s of
        c # cs \<Rightarrow>
          (if c \<noteq> newline then
             (case strip_prefix ''deb'' cs of
                Some r \<Rightarrow> if r = [] \<or> r = [newline] then Some r else None
              | None \<Rightarrow> None)
           else None)
      | [] \<Rightarrow> None)"

fun deb_sub :: "string \<Rightarrow> string" where
  "deb_sub [] = []"
| "deb_sub (c # cs) =
     (case deb_match_here (c # cs) of
        Some r \<Rightarrow> r
      | None \<Rightarrow> c # deb_sub cs)"

subsection \<open>The environment: file system and external tools\<close>

text \<open>
  Modelled from the spec: the collaborators of section 6 (file-system queries, file I/O
  provider, process runner, output sink) and the external tools the orchestrator invokes are
  not part of the repository. The file system is a list of entries keyed by the path strings
  the program builds (a directory argument may carry one trailing slash); every entry has a
  modification time, and a clock stamps what is written. Each tool has the effect its
  invocation in the source relies on.
\<close>

datatype entry = File string nat | Dir nat

type_synonym filesystem = "(string \<times> entry) list"

fun is_file :: "entry \<Rightarrow> bool" where
  "is_file (File c t) = True"
| "is_file (Dir t) = False"

fun mtime :: "entry \<Rightarrow> nat" where
  "mtime (File c t) = t"
| "mtime (Dir t) = t"

fun content :: "entry \<Rightarrow> string" where
  "content (File c t) = c"
| "content (Dir t) = []"

text \<open>\<open>os.path.exists\<close> and \<open>os.path.isdir\<close>.\<close>

definition fs_exists :: "filesystem \<Rightarrow> string \<Rightarrow> bool" where
  "fs_exists f p = (map_of f p \<noteq> None)"

definition fs_isdir :: "filesystem \<Rightarrow> string \<Rightarrow> bool" where
  "fs_isdir f p = (case map_of f p of Some (Dir t) \<Rightarrow> True | _ \<Rightarrow> False)"

definition fs_put :: "string \<Rightarrow> entry \<Rightarrow> filesystem \<Rightarrow> filesystem" where
  "fs_put p e f = filter (\<lambda>(k, x). k \<noteq> p) f @ [(p, e)]"

definition dirkey :: "string \<Rightarrow> string" where
  "dirkey p = (if p \<noteq> [] \<and> last p = CHR ''/'' then butlast p else p)"

text \<open>\<open>below d k\<close>: the path \<open>k\<close> lies below the directory \<open>d\<close>.\<close>

definition below :: "string \<Rightarrow> string \<Rightarrow> bool" where
  "below d k = prefix (d @ ''/'') k"

definition relpath :: "string \<Rightarrow> string \<Rightarrow> string" where
  "relpath d k = drop (Suc (length d)) k"

text \<open>\<open>os.listdir\<close>: the names of the entries directly in a directory.\<close>

definition listdir :: "filesystem \<Rightarrow> string \<Rightarrow> string list" where
  "listdir f p =
     (let d = dirkey p
      in [relpath d k. (k, e) \<leftarrow> f, below d k \<and> relpath d k \<noteq> [] \<and> CHR ''/'' \<notin> set (relpath d k)])"

definition unlines :: "string list \<Rightarrow> string" where
  "unlines ls = concat (map (\<lambda>l. l @ [newline]) ls)"

definition strip_newlines :: "string \<Rightarrow> string" where
  "strip_newlines s = rev (dropWhile (\<lambda>c. c = newline) (rev s))"

text \<open>
  \<open>find DIR -type f -newer REF\<close>: the regular files below \<open>DIR\<close> whose modification time is
  strictly later than that of \<open>REF\<close>, one path per line.
\<close>

definition find_newer :: "filesystem \<Rightarrow> string \<Rightarrow> string \<Rightarrow> string list" where
  "find_newer f dir ref =
     (case map_of f ref of
        None \<Rightarrow> []
      | Some r \<Rightarrow> [k. (k, e) \<leftarrow> f, below (dirkey dir) k \<and> is_file e \<and> mtime r < mtime e])"

text \<open>
  \<open>rsync -a SRC/ DST/\<close>: every entry of the source tree is copied, with its attributes, to
  the same relative path below \<open>DST\<close>, replacing what is there; nothing else below \<open>DST\<close> is
  deleted (the source passes no \<open>--delete\<close>).
\<close>

definition rsync :: "filesystem \<Rightarrow> string \<Rightarrow> string \<Rightarrow> filesystem" where
  "rsync f src dst =
     (let s = dirkey src; d = dirkey dst;
          copies = [(d @ drop (length s) k, e). (k, e) \<leftarrow> f, k = s \<or> below s k]
      in filter (\<lambda>(k, e). k \<notin> set (map fst copies)) f @ copies)"

text \<open>Shell patterns of \<open>find -name\<close>; \<open>*\<close> is the only metacharacter the source uses.\<close>

fun glob :: "string \<Rightarrow> string \<Rightarrow> bool" where
  "glob [] [] = True"
| "glob [] (c # cs) = False"
| "glob (p # ps) [] = (p = CHR ''*'' \<and> glob ps [])"
| "glob (p # ps) (c # cs) =
     (if p = CHR ''*'' then glob ps (c # cs) \<or> glob (p # ps) cs else p = c \<and> glob ps cs)"

fun split_path :: "string \<Rightarrow> string list" where
  "split_path [] = [[]]"
| "split_path (c # cs) =
     (if c = CHR ''/'' then [] # split_path cs
      else (case split_path cs of x # xs \<Rightarrow> (c # x) # xs | [] \<Rightarrow> [[c]]))"

text \<open>
  \<open>find DIR -ignore_readdir_race -name NAME -exec rm -rf {} ;\<close>: every entry below \<open>DIR\<close>
  whose name matches is removed with all that lies below it. (No pattern of the source matches
  the name of the starting directory itself.)
\<close>

definition find_name_rm :: "filesystem \<Rightarrow> string \<Rightarrow> string \<Rightarrow> filesystem" where
  "find_name_rm f dir name =
     (let d = dirkey dir
      in filter (\<lambda>(k, e). \<not> (below d k \<and> list_ex (glob name) (split_path (relpath d k)))) f)"

text \<open>\<open>rm -rf PATH\<close> and \<open>rm -f FILE\<close>.\<close>

definition rm_rf :: "filesystem \<Rightarrow> string \<Rightarrow> filesystem" where
  "rm_rf f p = (let d = dirkey p in filter (\<lambda>(k, e). \<not> (k = d \<or> below d k)) f)"

definition rm_f :: "filesystem \<Rightarrow> string \<Rightarrow> filesystem" where
  "rm_f f p = filter (\<lambda>(k, e). \<not> (k = p \<and> is_file e)) f"

text \<open>
  \<open>dpkg-deb --build DIR DEB\<close> writes the archive of the tree below \<open>DIR\<close> to \<open>DEB\<close>; the
  archive is represented by the list of its files.
\<close>

definition pack :: "filesystem \<Rightarrow> string \<Rightarrow> string" where
  "pack f dir =
     (let d = dirkey dir
      in concat [relpath d k @ ''='' @ content e @ '';''. (k, e) \<leftarrow> f, below d k \<and> is_file e])"

definition dpkg_deb_build :: "filesystem \<Rightarrow> nat \<Rightarrow> string \<Rightarrow> string \<Rightarrow> filesystem" where
  "dpkg_deb_build f t dir deb = fs_put deb (File (pack f dir) t) f"

text \<open>
  \<open>dpkg-scanpackages ./ /dev/null\<close>, run in \<open>cwd\<close>: one stanza, ended by an empty line, for
  each archive below \<open>cwd\<close>.
\<close>

definition dpkg_scanpackages :: "filesystem \<Rightarrow> string \<Rightarrow> string" where
  "dpkg_scanpackages f cwd =
     (let d = dirkey cwd
      in concat [''Filename: ./'' @ relpath d k @ [newline, newline].
                 (k, e) \<leftarrow> f, below d k \<and> is_file e \<and> suffix ''.deb'' k])"

text \<open>\<open>gzip --best --force FILE\<close> replaces \<open>FILE\<close> by \<open>FILE.gz\<close>.\<close>

definition gzip :: "filesystem \<Rightarrow> nat \<Rightarrow> string \<Rightarrow> filesystem" where
  "gzip f t p =
     (case map_of f p of
        Some (File c t0) \<Rightarrow> fs_put (p @ ''.gz'') (File (''gzip:'' @ c) t) (rm_f f p)
      | _ \<Rightarrow> f)"

text \<open>
  The effect of one command line: its standard output, the file system and the clock after
  it. \<open>cwd\<close> is the working directory the caller asks for.
\<close>

definition tool :: "string list \<Rightarrow> string option \<Rightarrow> filesystem \<Rightarrow> nat \<Rightarrow> string \<times> filesystem \<times> nat" where
  "tool command cwd f t =
     (if length command = 6 \<and>
         command = [''find'', command ! 1, ''-type'', ''f'', ''-newer'', command ! 5]
        then (unlines (find_newer f (command ! 1) (command ! 5)), f, t)
      else if length command = 4 \<and> command = [''rsync'', ''-a'', command ! 2, command ! 3]
        then ([], rsync f (command ! 2) (command ! 3), t)
      else if length command = 10 \<and>
         command = [''find'', command ! 1, ''-ignore_readdir_race'', ''-name'', command ! 4,
                    ''-exec'', ''rm'', ''-rf'', ''{}'', '';'']
        then ([], find_name_rm f (command ! 1) (command ! 4), t)
      else if length command = 3 \<and> command = [''rm'', ''-rf'', command ! 2]
        then ([], rm_rf f (command ! 2), t)
      else if length command = 3 \<and> command = [''rm'', ''-f'', command ! 2]
        then ([], rm_f f (command ! 2), t)
      else if length command = 4 \<and> command = [''dpkg-deb'', ''--build'', command ! 2, command ! 3]
        then ([], dpkg_deb_build f t (command ! 2) (command ! 3), Suc t)
      else if command = [''dpkg-scanpackages'', ''./'', ''/dev/null'']
        then (dpkg_scanpackages f (case cwd of Some d \<Rightarrow> d | None \<Rightarrow> ''.''), f, t)
      else if length command = 4 \<and> command = [''gzip'', ''--best'', ''--force'', command ! 3]
        then ([], gzip f t (command ! 3), Suc t)
      else ([], f, t))"

subsection \<open>The builder\<close>

text \<open>
  \<open>PackageProblemOkToContinue\<close> is the exception class of the source; the others are what
  Python and the collaborators raise: \<open>AttributeError\<close> for an attribute of \<open>None\<close>,
  \<open>OSError\<close> for \<open>listdir\<close> of a path that is no directory, \<open>IOError\<close> for reading or writing
  a path that is no regular file, \<open>CommandFailed\<close> for an external command that fails.
\<close>

datatype error =
    PackageProblemOkToContinue
  | AttributeError
  | OSError string
  | IOError string
  | CommandFailed "string list"

datatype outmsg = Put string | Indent string | UnIndent

text \<open>
  The trace is not a field of the source: it records each call of \<open>needToRebuildPackage\<close>
  and of \<open>buildPackage\<close> and each command given to the process runner, so that theorems can
  speak about what a run invoked.
\<close>

datatype event = CallNeedToRebuild string | CallBuildPackage string | Cmd "string list"

text \<open>
  \<open>codeSourceDir\<close> and \<open>debsDir\<close> are \<open>self.config\<close>, \<open>arg_all\<close> and \<open>arg_package\<close> are
  \<open>self.arguments\<close>, \<open>packageList\<close> is the class attribute (one list object, shared by every
  instance and every call), \<open>fs\<close>, \<open>clock\<close> and \<open>failing\<close> are the world behind
  \<open>self.system\<close> (\<open>failing\<close> tells which command fails in which file system), \<open>out\<close> is what
  \<open>self.out\<close> has received.
\<close>

record builder =
  codeSourceDir :: string
  debsDir :: string
  arg_all :: bool
  arg_package :: "string option"
  packageList :: "string list"
  fs :: filesystem
  clock :: nat
  failing :: "string list \<Rightarrow> filesystem \<Rightarrow> bool"
  out :: "outmsg list"
  trace :: "event list"

type_synonym 'a action = "builder \<Rightarrow> (error + 'a) \<times> builder"

definition ret :: "'a \<Rightarrow> 'a action" where
  "ret x s = (Inr x, s)"

definition raise :: "error \<Rightarrow> 'a action" where
  "raise e s = (Inl e, s)"

text \<open>Sequencing: an exception of the first statement skips the rest.\<close>

definition andThen :: "'a action \<Rightarrow> ('a \<Rightarrow> 'b action) \<Rightarrow> 'b action" where
  "andThen m k s = (case m s of (Inl e, s') \<Rightarrow> (Inl e, s') | (Inr x, s') \<Rightarrow> k x s')"

definition put :: "string \<Rightarrow> unit action" where
  "put m s = (Inr (), s\<lparr>out := out s @ [Put m]\<rparr>)"

definition indent :: "string \<Rightarrow> unit action" where
  "indent m s = (Inr (), s\<lparr>out := out s @ [Indent m]\<rparr>)"

definition unIndent :: "unit action" where
  "unIndent s = (Inr (), s\<lparr>out := out s @ [UnIndent]\<rparr>)"

definition log_event :: "event \<Rightarrow> unit action" where
  "log_event e s = (Inr (), s\<lparr>trace := trace s @ [e]\<rparr>)"

text \<open>
  Modelled from the spec: \<open>self.system.runCommand\<close>, \<open>readFile\<close> and \<open>writeFile\<close> (section 6:
  the process runner returns the captured standard output, with newlines normalised unless
  that is suppressed; section 7: a failing tool is fatal, that is, raises).
\<close>

definition runCommand :: "string list \<Rightarrow> string option \<Rightarrow> bool \<Rightarrow> string action" where
  "runCommand command cwd stripNewlines s =
     (let s1 = s\<lparr>trace := trace s @ [Cmd command]\<rparr>
      in if failing s command (fs s) then (Inl (CommandFailed command), s1)
         else (case tool command cwd (fs s) (clock s) of
                 (output, f, t) \<Rightarrow>
                   (Inr (if stripNewlines then strip_newlines output else output),
                    s1\<lparr>fs := f, clock := t\<rparr>)))"

definition readFile :: "string \<Rightarrow> string action" where
  "readFile path s =
     (case map_of (fs s) path of
        Some (File c t) \<Rightarrow> (Inr c, s)
      | _ \<Rightarrow> (Inl (IOError path), s))"

definition writeFile :: "string \<Rightarrow> string \<Rightarrow> unit action" where
  "writeFile path text s =
     (if fs_isdir (fs s) path then (Inl (IOError path), s)
      else (Inr (), s\<lparr>fs := fs_put path (File text (clock s)) (fs s), clock := Suc (clock s)\<rparr>))"

definition APT_PACKAGES_BASE_FILENAME :: string where
  "APT_PACKAGES_BASE_FILENAME = ''Packages''"

definition WORKING_DIR_RELATIVE :: string where
  "WORKING_DIR_RELATIVE = ''.workingDir''"

definition packageFilesToRemoveBeforeBuilding :: "string list" where
  "packageFilesToRemoveBeforeBuilding =
     [''.svn'', ''.cache'', ''.project'', ''.pydevproject'', ''*.pyc'', ''.DEBUG'', ''.git'',
      ''README.md'']"

definition getSourceDirFullPath :: "builder \<Rightarrow> string \<Rightarrow> string" where
  "getSourceDirFullPath s package = codeSourceDir s @ ''/'' @ package @ ''/''"

definition getControlFilePath :: "builder \<Rightarrow> string \<Rightarrow> string" where
  "getControlFilePath s package = getSourceDirFullPath s package @ ''DEBIAN/control''"

definition getWorkingDirFullPath :: "builder \<Rightarrow> string" where
  "getWorkingDirFullPath s = debsDir s @ ''/'' @ WORKING_DIR_RELATIVE @ ''/''"

definition getDebFileFullPath :: "builder \<Rightarrow> string \<Rightarrow> string" where
  "getDebFileFullPath s package = debsDir s @ ''/'' @ package @ ''.deb''"

definition getPackageInfoUncompressedFilename :: "builder \<Rightarrow> string" where
  "getPackageInfoUncompressedFilename s = debsDir s @ ''/'' @ APT_PACKAGES_BASE_FILENAME"

definition quoted :: "string \<Rightarrow> string" where
  "quoted x = [dquote] @ x @ [dquote]"

definition needToRebuildPackage :: "string \<Rightarrow> bool action" where
  "needToRebuildPackage package =
     andThen (log_event (CallNeedToRebuild package)) (\<lambda>_ s.
       (let debFile = getDebFileFullPath s package
        in if \<not> fs_exists (fs s) debFile then ret True s
           else (let packageDir = getSourceDirFullPath s package;
                     command = [''find'', packageDir, ''-type'', ''f'', ''-newer'', debFile]
                 in andThen (runCommand command None True) (\<lambda>result. ret (result \<noteq> [])) s)))"

text \<open>The body of the loop of \<open>addAllPackagesToList\<close>, over the sorted listing.\<close>

fun addAllLoop :: "bool \<Rightarrow> string list \<Rightarrow> unit action" where
  "addAllLoop force [] = ret ()"
| "addAllLoop force (package # packages) =
     andThen (if force then ret True else needToRebuildPackage package) (\<lambda>need.
     andThen (\<lambda>s.
       if need then
         (let fullPath = codeSourceDir s @ ''/'' @ package;
              controlFilePath = getControlFilePath s package
          in if fs_isdir (fs s) fullPath \<and> fs_exists (fs s) controlFilePath
             then ret () (s\<lparr>packageList := packageList s @ [package]\<rparr>)
             else ret () s)
       else put (''skipping package '' @ quoted package @ '' - .deb file already current'') s) (\<lambda>_.
     addAllLoop force packages))"

definition addAllPackagesToList :: "bool \<Rightarrow> unit action" where
  "addAllPackagesToList force s =
     (if \<not> fs_isdir (fs s) (dirkey (codeSourceDir s)) then raise (OSError (codeSourceDir s)) s
      else addAllLoop force (sort (listdir (fs s) (codeSourceDir s))) s)"

definition incrementPackageVersion :: "string \<Rightarrow> unit action" where
  "incrementPackageVersion package s =
     (let path = getControlFilePath s package
      in if \<not> fs_exists (fs s) path
         then andThen (put (''ERROR: no control file found for '' @ package))
                (\<lambda>_. raise PackageProblemOkToContinue) s
         else andThen (readFile path) (\<lambda>controlFileContent.
                (case version_search controlFileContent of
                   None \<Rightarrow> raise AttributeError
                 | Some (g1, g2, g3) \<Rightarrow>
                     (let currentVersion = g2 @ g3;
                          nextMinorVersionNumber = int_of_digits g3 + 1;
                          nextVersion = g2 @ str_of_nat nextMinorVersionNumber;
                          nextVersionText = g1 @ nextVersion;
                          contentWithNextMinorVersion = version_sub nextVersionText controlFileContent
                      in andThen (put (''incremented package version from '' @ currentVersion
                                        @ '' to '' @ nextVersion))
                           (\<lambda>_. writeFile path contentWithNextMinorVersion)))) s)"

fun removeLoop :: "string list \<Rightarrow> unit action" where
  "removeLoop [] = ret ()"
| "removeLoop (name # names) =
     andThen (\<lambda>s. runCommand [''find'', getWorkingDirFullPath s, ''-ignore_readdir_race'', ''-name'',
                              name, ''-exec'', ''rm'', ''-rf'', ''{}'', '';''] None True s)
       (\<lambda>_. removeLoop names)"

definition createWorkingDir :: "string \<Rightarrow> unit action" where
  "createWorkingDir package =
     andThen (put ''creating working dir'') (\<lambda>_.
     andThen (\<lambda>s. runCommand [''rsync'', ''-a'', getSourceDirFullPath s package,
                               getWorkingDirFullPath s] None True s) (\<lambda>_.
     removeLoop packageFilesToRemoveBeforeBuilding))"

definition buildDebFile :: "string \<Rightarrow> unit action" where
  "buildDebFile package =
     andThen (indent ''building .deb file'') (\<lambda>_.
     andThen (\<lambda>s. runCommand [''rm'', ''-f'', getDebFileFullPath s package] None True s) (\<lambda>_.
     andThen (\<lambda>s. runCommand [''dpkg-deb'', ''--build'', getWorkingDirFullPath s,
                               getDebFileFullPath s package] (Some (debsDir s)) True s) (\<lambda>_.
     unIndent)))"

definition removeWorkingDir :: "unit action" where
  "removeWorkingDir =
     andThen (put ''cleaning up working directory'') (\<lambda>_.
     andThen (\<lambda>s. runCommand [''rm'', ''-rf'', getWorkingDirFullPath s] None True s) (\<lambda>_.
     ret ()))"

text \<open>\<open>try: ... except PackageProblemOkToContinue\<close>: no other exception is caught.\<close>

definition buildPackage :: "string \<Rightarrow> unit action" where
  "buildPackage package s0 =
     (case andThen (log_event (CallBuildPackage package)) (\<lambda>_.
           andThen (incrementPackageVersion package) (\<lambda>_.
           andThen (createWorkingDir package) (\<lambda>_.
           andThen (buildDebFile package) (\<lambda>_.
           removeWorkingDir)))) s0 of
        (Inl PackageProblemOkToContinue, s) \<Rightarrow>
          put (''skipping package '' @ quoted package) s
      | r \<Rightarrow> r)"

fun buildLoop :: "string list \<Rightarrow> unit action" where
  "buildLoop [] = ret ()"
| "buildLoop (selected # rest) =
     (let package = deb_sub selected
      in andThen (indent (''Building package '' @ quoted package)) (\<lambda>_.
         andThen (buildPackage package) (\<lambda>_.
         andThen unIndent (\<lambda>_.
         andThen (put (''done with '' @ quoted package)) (\<lambda>_.
         buildLoop rest)))))"

definition buildPackages :: "unit action" where
  "buildPackages s = buildLoop (packageList s) s"

definition refreshAptRepository :: "unit action" where
  "refreshAptRepository s =
     (if length (packageList s) = 0
      then put ''Not rebuilding APT repository metadata (no packages updated)'' s
      else andThen (put ''rebuilding APT repository metadata'') (\<lambda>_ s1.
             (let packageInfoFilename = getPackageInfoUncompressedFilename s1;
                  command = [''dpkg-scanpackages'', ''./'', ''/dev/null'']
              in andThen (runCommand command (Some (debsDir s1)) False) (\<lambda>packageInfo.
                 andThen (writeFile packageInfoFilename packageInfo) (\<lambda>_.
                 andThen (runCommand [''gzip'', ''--best'', ''--force'', packageInfoFilename] None True)
                   (\<lambda>_. ret ()))) s1)) s)"

text \<open>A value of \<open>arguments['package']\<close> is true when it is neither \<open>None\<close> nor empty.\<close>

definition doRunSteps :: "unit action" where
  "doRunSteps =
     andThen (\<lambda>s.
       if arg_all s then addAllPackagesToList True s
       else (case arg_package s of
               Some p \<Rightarrow>
                 if p \<noteq> [] then ret () (s\<lparr>packageList := packageList s @ [p]\<rparr>)
                 else addAllPackagesToList False s
             | None \<Rightarrow> addAllPackagesToList False s)) (\<lambda>_.
     andThen buildPackages (\<lambda>_.
     refreshAptRepository))"

text \<open>
  A fresh process: the class body has just run, so \<open>packageList\<close> is the empty list, nothing
  has been printed and nothing has been invoked.
\<close>

definition new_builder ::
  "string \<Rightarrow> string \<Rightarrow> bool \<Rightarrow> string option \<Rightarrow> filesystem \<Rightarrow> nat \<Rightarrow> (string list \<Rightarrow> filesystem \<Rightarrow> bool) \<Rightarrow> builder" where
  "new_builder src debs a p f t bad =
     \<lparr>codeSourceDir = src, debsDir = debs, arg_all = a, arg_package = p, packageList = [],
      fs = f, clock = t, failing = bad, out = [], trace = []\<rparr>"

subsection \<open>Notions used in the statements\<close>

text \<open>
  \<open>index_scan\<close> is the command line of \<open>refreshAptRepository\<close> that regenerates the index.
  \<open>steps Q s s'\<close> says that \<open>s'\<close> comes from \<open>s\<close> with the configuration, the arguments and
  the process runner unchanged and with new events that all satisfy \<open>Q\<close>; \<open>evolves\<close> adds that
  \<open>packageList\<close> is unchanged, \<open>selects\<close> that it has only been appended to. \<open>new_events s s'\<close>
  are the events recorded between the two states. \<open>staging_exists\<close> tells whether anything
  is at or below the working directory, and \<open>excluded\<close> whether a relative path has a
  component that matches one of \<open>packageFilesToRemoveBeforeBuilding\<close>.
\<close>

definition index_scan :: "string list" where
  "index_scan = [''dpkg-scanpackages'', ''./'', ''/dev/null'']"

definition steps :: "(event \<Rightarrow> bool) \<Rightarrow> builder \<Rightarrow> builder \<Rightarrow> bool" where
  "steps Q s s' \<longleftrightarrow>
     codeSourceDir s' = codeSourceDir s \<and> debsDir s' = debsDir s \<and>
     arg_all s' = arg_all s \<and> arg_package s' = arg_package s \<and> failing s' = failing s \<and>
     (\<exists>t. trace s' = trace s @ t \<and> (\<forall>e \<in> set t. Q e))"

definition evolves :: "(event \<Rightarrow> bool) \<Rightarrow> builder \<Rightarrow> builder \<Rightarrow> bool" where
  "evolves Q s s' \<longleftrightarrow> steps Q s s' \<and> packageList s' = packageList s"

definition selects :: "(event \<Rightarrow> bool) \<Rightarrow> builder \<Rightarrow> builder \<Rightarrow> bool" where
  "selects Q s s' \<longleftrightarrow> steps Q s s' \<and> prefix (packageList s) (packageList s')"

definition new_events :: "builder \<Rightarrow> builder \<Rightarrow> event list" where
  "new_events s s' = drop (length (trace s)) (trace s')"


definition staging_exists :: "builder \<Rightarrow> bool" where
  "staging_exists s =
     list_ex (\<lambda>(k, e). k = dirkey (getWorkingDirFullPath s) \<or> below (dirkey (getWorkingDirFullPath s)) k)
       (fs s)"

definition excluded :: "string \<Rightarrow> bool" where
  "excluded rel =
     list_ex (\<lambda>name. list_ex (glob name) (split_path rel)) packageFilesToRemoveBeforeBuilding"

named_theorems evolve "how each method changes the builder"

subsection \<open>Example worlds\<close>

text \<open>
  One source package \<open>foo\<close> at version 1.2.9, with version-control data and a compiled file
  beside its sources, and an empty output directory; no command fails, or only the packaging
  tool does.
\<close>

definition no_failure :: "string list \<Rightarrow> filesystem \<Rightarrow> bool" where
  "no_failure command f = False"

definition dpkg_deb_fails :: "string list \<Rightarrow> filesystem \<Rightarrow> bool" where
  "dpkg_deb_fails command f = (take 1 command = [''dpkg-deb''])"

definition demo_fs :: filesystem where
  "demo_fs =
     [(''/src'', Dir 1), (''/debs'', Dir 1),
      (''/src/foo'', Dir 2), (''/src/foo/DEBIAN'', Dir 2),
      (''/src/foo/DEBIAN/control'', File ''Version: 1.2.9'' 3),
      (''/src/foo/.git'', Dir 2), (''/src/foo/.git/HEAD'', File ''ref'' 2),
      (''/src/foo/x.pyc'', File ''bc'' 2), (''/src/foo/x.py'', File ''py'' 2)]"

definition demo :: "bool \<Rightarrow> string option \<Rightarrow> builder" where
  "demo a p = new_builder ''/src'' ''/debs'' a p demo_fs 10 no_failure"

text \<open>
  Further worlds: a working directory left over from an earlier run; an archive of \<open>foo\<close> that
  is older than the control file; a package \<open>a\<close> whose control file has no version line, beside
  a well-formed package \<open>b\<close>; a control file with a second field that ends in \<open>Version: \<close>.
\<close>

definition leftover_fs :: filesystem where
  "leftover_fs = demo_fs @ [(''/debs/.workingDir'', Dir 1), (''/debs/.workingDir/old'', File ''stale'' 1)]"

definition built_fs :: filesystem where
  "built_fs = demo_fs @ [(''/debs/foo.deb'', File ''archive'' 2)]"

definition no_version_fs :: filesystem where
  "no_version_fs =
     [(''/src'', Dir 1), (''/debs'', Dir 1),
      (''/src/a'', Dir 1), (''/src/a/DEBIAN/control'', File (''Package: a'' @ [newline]) 1),
      (''/src/b'', Dir 1), (''/src/b/DEBIAN/control'', File ''Version: 1.0.0'' 1)]"

definition two_versions_fs :: filesystem where
  "two_versions_fs =
     [(''/src'', Dir 1), (''/debs'', Dir 1), (''/src/foo'', Dir 1),
      (''/src/foo/DEBIAN/control'',
       File (''Version: 1.2.3'' @ [newline] @ ''Standards-Version: 3.9.2'' @ [newline]) 1)]"

text \<open>
  The same two fields in the other order; a package \<open>foo\<close> whose archive is newer than all
  its sources; two packages named \<open>m\<close> and \<open>mydeb\<close>; two packages \<open>foo\<close> and \<open>bar\<close>.
\<close>

definition standards_first_fs :: filesystem where
  "standards_first_fs =
     [(''/src'', Dir 1), (''/debs'', Dir 1), (''/src/foo'', Dir 1),
      (''/src/foo/DEBIAN/control'',
       File (''Standards-Version: 3.9.2'' @ [newline] @ ''Version: 1.2.3'' @ [newline]) 1)]"

definition current_fs :: filesystem where
  "current_fs =
     [(''/src'', Dir 1), (''/debs'', Dir 1),
      (''/src/foo'', Dir 2), (''/src/foo/DEBIAN'', Dir 2),
      (''/src/foo/DEBIAN/control'', File ''Version: 1.2.9'' 3),
      (''/src/foo/x.py'', File ''py'' 2),
      (''/debs/foo.deb'', File ''archive'' 5)]"

definition mydeb_fs :: filesystem where
  "mydeb_fs =
     [(''/src'', Dir 1), (''/debs'', Dir 1),
      (''/src/m'', Dir 1), (''/src/m/DEBIAN'', Dir 1),
      (''/src/m/DEBIAN/control'', File ''Version: 1.0.0'' 1),
      (''/src/mydeb'', Dir 1), (''/src/mydeb/DEBIAN'', Dir 1),
      (''/src/mydeb/DEBIAN/control'', File ''Version: 2.0.0'' 1)]"

definition foo_bar_fs :: filesystem where
  "foo_bar_fs =
     [(''/src'', Dir 1), (''/debs'', Dir 1),
      (''/src/foo'', Dir 1), (''/src/foo/DEBIAN'', Dir 1),
      (''/src/foo/DEBIAN/control'', File ''Version: 1.2.9'' 1),
      (''/src/bar'', Dir 1), (''/src/bar/DEBIAN'', Dir 1),
      (''/src/bar/DEBIAN/control'', File ''Version: 0.1.0'' 1)]"

section \<open>Properties\<close>

subsection \<open>The version line\<close>

lemma strip_prefix_append: "strip_prefix p (p @ x) = Some x"
  by (induction p) auto

lemma is_digit_verch: "is_digit c \<Longrightarrow> is_verch c"
  by (simp add: is_verch_def)

lemma is_digit_not_dot: "is_digit c \<Longrightarrow> c \<noteq> CHR ''.''"
  by (auto simp: is_digit_def)

lemma takeWhile_run:
  assumes "\<forall>c \<in> set xs. P c" "rest = [] \<or> \<not> P (hd rest)"
  shows "takeWhile P (xs @ rest) = xs"
  using assms by (induction xs) (auto simp: neq_Nil_conv takeWhile_eq_Nil_iff)

lemma dropWhile_run:
  assumes "\<forall>c \<in> set xs. P c" "rest = [] \<or> \<not> P (hd rest)"
  shows "dropWhile P (xs @ rest) = rest"
  using assms by (induction xs) (auto simp: neq_Nil_conv dropWhile_eq_self_iff)

lemma drop_digits_no_dot:
  assumes ds: "\<forall>c \<in> set ds. is_digit c"
    and rest: "rest = [] \<or> \<not> is_verch (hd rest)"
    and j: "j \<le> length ds"
    and d: "drop j (ds @ rest) = c # cs"
  shows "c \<noteq> CHR ''.''"
proof (cases "j < length ds")
  case True
  then have "c = ds ! j"
    using d by (metis hd_drop_conv_nth length_append list.sel(1) nth_append trans_less_add1)
  then show ?thesis
    using ds True is_digit_not_dot by auto
next
  case False
  then have "rest = c # cs" using j d by simp
  then show ?thesis using rest by (auto simp: is_verch_def)
qed

lemma version_groups_back:
  assumes ds: "\<forall>c \<in> set ds. is_digit c"
    and rest: "rest = [] \<or> \<not> is_verch (hd rest)"
  shows "j \<le> Suc (length ds) \<Longrightarrow>
         version_groups (length pre + j) (pre @ ''.'' @ ds @ rest) =
         version_groups (length pre) (pre @ ''.'' @ ds @ rest)"
proof (induction j)
  case 0
  then show ?case by simp
next
  case (Suc j)
  have dr: "drop (Suc (length pre + j)) (pre @ ''.'' @ ds @ rest) = drop j (ds @ rest)"
    by simp
  have "version_groups (Suc (length pre + j)) (pre @ ''.'' @ ds @ rest) =
        version_groups (length pre + j) (pre @ ''.'' @ ds @ rest)"
  proof (cases "drop j (ds @ rest)")
    case Nil
    then show ?thesis using dr by simp
  next
    case (Cons c cs)
    then have "c \<noteq> CHR ''.''"
      using drop_digits_no_dot [OF ds rest _ Cons] Suc.prems by simp
    then show ?thesis using dr Cons by simp
  qed
  then show ?case using Suc by simp
qed

lemma version_groups_hit:
  assumes pre: "pre \<noteq> []"
    and ds: "ds \<noteq> []" "\<forall>c \<in> set ds. is_digit c"
    and rest: "rest = [] \<or> \<not> is_verch (hd rest)"
  shows "version_groups (length pre) (pre @ ''.'' @ ds @ rest) = Some (pre @ ''.'', ds)"
proof -
  obtain k where k: "length pre = Suc k"
    using pre by (cases pre) auto
  have rest': "rest = [] \<or> \<not> is_digit (hd rest)"
    using rest is_digit_verch by blast
  have tw: "takeWhile is_digit (ds @ rest) = ds"
    using takeWhile_run [of ds is_digit rest] ds rest' by simp
  have "version_groups (Suc k) (pre @ ''.'' @ ds @ rest) = Some (pre @ ''.'', ds)"
    using k tw ds(1) by simp
  then show ?thesis using k by simp
qed

lemma version_match_here_line:
  assumes pre: "pre \<noteq> []" "\<forall>c \<in> set pre. is_verch c"
    and ds: "ds \<noteq> []" "\<forall>c \<in> set ds. is_digit c"
    and rest: "rest = [] \<or> \<not> is_verch (hd rest)"
  shows "version_match_here (''Version: '' @ pre @ ''.'' @ ds @ rest) = Some (pre @ ''.'', ds)"
proof -
  have run: "\<forall>c \<in> set (pre @ ''.'' @ ds). is_verch c"
    using pre(2) ds(2) by (auto simp: is_verch_def)
  have "takeWhile is_verch ((pre @ ''.'' @ ds) @ rest) = pre @ ''.'' @ ds"
    using takeWhile_run [OF run rest] .
  then have len: "length (takeWhile is_verch (pre @ ''.'' @ ds @ rest)) = length pre + Suc (length ds)"
    by simp
  have "version_groups (length pre + Suc (length ds)) (pre @ ''.'' @ ds @ rest) = Some (pre @ ''.'', ds)"
    using version_groups_back [OF ds(2) rest, of "Suc (length ds)" pre]
      version_groups_hit [OF pre(1) ds rest] by simp
  then show ?thesis
    unfolding version_match_here_def strip_prefix_append using len by simp
qed

lemma version_search_line:
  assumes pre: "pre \<noteq> []" "\<forall>c \<in> set pre. is_verch c"
    and ds: "ds \<noteq> []" "\<forall>c \<in> set ds. is_digit c"
    and rest: "rest = [] \<or> \<not> is_verch (hd rest)"
  shows "version_search (''Version: '' @ pre @ ''.'' @ ds @ rest) = Some (''Version: '', pre @ ''.'', ds)"
proof -
  have "version_search (CHR ''V'' # (''ersion: '' @ pre @ ''.'' @ ds @ rest)) = Some (''Version: '', pre @ ''.'', ds)"
    using version_match_here_line [OF assms] by (simp del: version_match_here_def)
  then show ?thesis by simp
qed

lemma version_sub_line:
  assumes run: "run \<noteq> []" "\<forall>c \<in> set run. is_verch c"
    and rest: "rest = [] \<or> \<not> is_verch (hd rest)"
  shows "version_sub repl (''Version: '' @ run @ rest) = repl @ version_sub repl rest"
proof -
  have sp: "strip_prefix ''Version: '' (CHR ''V'' # (''ersion: '' @ run @ rest)) = Some (run @ rest)"
    using strip_prefix_append [of "''Version: ''" "run @ rest"] by simp
  have "version_sub repl (CHR ''V'' # (''ersion: '' @ run @ rest)) = repl @ version_sub repl rest"
    unfolding version_sub.simps sp
    using takeWhile_run [OF run(2) rest] dropWhile_run [OF run(2) rest] run(1) by simp
  then show ?thesis by simp
qed

lemma digit_char_props:
  assumes "d < 10"
  shows "is_digit (digit_char d)" "digit_val (digit_char d) = d"
proof -
  have "d \<in> {0, 1, 2, 3, 4, 5, 6, 7, 8, 9}" using assms by auto
  then show "is_digit (digit_char d)" "digit_val (digit_char d) = d"
    by (auto simp: digit_char_def digit_val_def is_digit_def)
qed

lemma str_of_nat_digits: "\<forall>c \<in> set (str_of_nat n). is_digit c"
proof (induction n rule: str_of_nat.induct)
  case (1 n)
  show ?case
  proof (cases "n < 10")
    case True
    then show ?thesis by (subst str_of_nat.simps) (simp add: digit_char_props)
  next
    case False
    then show ?thesis
      using 1 by (subst str_of_nat.simps) (simp add: digit_char_props)
  qed
qed

lemma str_of_nat_nonempty: "str_of_nat n \<noteq> []"
  by (subst str_of_nat.simps) simp

lemma int_of_digits_snoc: "int_of_digits (ds @ [c]) = 10 * int_of_digits ds + digit_val c"
  by (simp add: int_of_digits_def)

lemma int_of_digits_str: "int_of_digits (str_of_nat n) = n"
proof (induction n rule: str_of_nat.induct)
  case (1 n)
  show ?case
  proof (cases "n < 10")
    case True
    then show ?thesis
      by (subst str_of_nat.simps) (simp add: int_of_digits_def digit_char_props)
  next
    case False
    then have "int_of_digits (str_of_nat (n div 10) @ [digit_char (n mod 10)]) = n"
      using 1 by (simp add: int_of_digits_snoc digit_char_props)
    then show ?thesis using False by (subst str_of_nat.simps) simp
  qed
qed

lemma version_match_here_other: "CHR ''V'' \<noteq> c \<Longrightarrow> version_match_here (c # cs) = None"
  by (auto simp: version_match_here_def)

lemma version_search_skip:
  "CHR ''V'' \<notin> set before \<Longrightarrow> version_search (before @ x) = version_search x"
  by (induction before) (simp_all add: version_match_here_other)

lemma version_sub_skip:
  "CHR ''V'' \<notin> set before \<Longrightarrow> version_sub repl (before @ x) = before @ version_sub repl x"
  by (induction before) simp_all

lemma version_sub_head:
  assumes "rest = [] \<or> \<not> is_verch (hd rest)" "repl \<noteq> []" "\<not> is_verch (hd repl)"
  shows "version_sub repl rest = [] \<or> \<not> is_verch (hd (version_sub repl rest))"
proof (cases rest)
  case Nil
  then show ?thesis by simp
next
  case (Cons c cs)
  then have "\<not> is_verch c" using assms(1) by simp
  then show ?thesis
    using assms(2,3) unfolding Cons version_sub.simps
    by (auto split: option.splits)
qed

lemma map_of_fs_put: "map_of (fs_put p e f) q = (if q = p then Some e else map_of f q)"
proof -
  have "map_of (filter (\<lambda>(k, x). k \<noteq> p) f) q = (if q = p then None else map_of f q)"
    by (induction f) auto
  then show ?thesis
    by (simp add: fs_put_def map_add_def split: option.splits)
qed

lemma incrementPackageVersion_match:
  assumes ctl: "map_of (fs s) (getControlFilePath s package) = Some (File text t)"
    and found: "version_search text = Some (g1, g2, g3)"
  shows "incrementPackageVersion package s =
           (Inr (), s\<lparr>out := out s @ [Put (''incremented package version from '' @ g2 @ g3 @ '' to ''
                                          @ g2 @ str_of_nat (int_of_digits g3 + 1))],
                     fs := fs_put (getControlFilePath s package)
                             (File (version_sub (g1 @ g2 @ str_of_nat (int_of_digits g3 + 1)) text) (clock s))
                             (fs s),
                     clock := Suc (clock s)\<rparr>)"
  using assms
  by (simp add: incrementPackageVersion_def fs_exists_def andThen_def readFile_def put_def
      writeFile_def fs_isdir_def Let_def getControlFilePath_def getSourceDirFullPath_def)

lemma getControlFilePath_upd [simp]:
  "getControlFilePath (s\<lparr>out := x\<rparr>) p = getControlFilePath s p"
  "getControlFilePath (s\<lparr>fs := y\<rparr>) p = getControlFilePath s p"
  "getControlFilePath (s\<lparr>clock := z\<rparr>) p = getControlFilePath s p"
  by (simp_all add: getControlFilePath_def getSourceDirFullPath_def)

lemma bump_once:
  assumes ctl: "map_of (fs s) (getControlFilePath s package) =
                  Some (File (before @ ''Version: '' @ pre @ ''.'' @ str_of_nat n @ rest) t)"
    and before: "CHR ''V'' \<notin> set before"
    and pre: "pre \<noteq> []" "\<forall>c \<in> set pre. is_verch c"
    and rest: "rest = [] \<or> \<not> is_verch (hd rest)"
  shows "incrementPackageVersion package s =
           (Inr (), s\<lparr>out := out s @ [Put (''incremented package version from '' @ pre @ ''.'' @ str_of_nat n
                                          @ '' to '' @ pre @ ''.'' @ str_of_nat (n + 1))],
                     fs := fs_put (getControlFilePath s package)
                             (File (before @ ''Version: '' @ pre @ ''.'' @ str_of_nat (n + 1)
                                    @ version_sub (''Version: '' @ pre @ ''.'' @ str_of_nat (n + 1)) rest)
                                (clock s))
                             (fs s),
                     clock := Suc (clock s)\<rparr>)"
proof -
  let ?line = "''Version: '' @ pre @ ''.'' @ str_of_nat n @ rest"
  let ?repl = "''Version: '' @ pre @ ''.'' @ str_of_nat (n + 1)"
  have found: "version_search (before @ ?line) = Some (''Version: '', pre @ ''.'', str_of_nat n)"
    using version_search_skip [OF before, of ?line]
      version_search_line [OF pre str_of_nat_nonempty str_of_nat_digits rest, of n]
    by simp
  have run: "\<forall>c \<in> set (pre @ ''.'' @ str_of_nat n). is_verch c"
    using pre(2) str_of_nat_digits [of n] by (auto simp: is_verch_def)
  have "version_sub ?repl (''Version: '' @ (pre @ ''.'' @ str_of_nat n) @ rest) = ?repl @ version_sub ?repl rest"
    by (rule version_sub_line [OF _ run rest]) simp
  then have sub: "version_sub ?repl (before @ ?line) = before @ ?repl @ version_sub ?repl rest"
    using version_sub_skip [OF before, of ?repl ?line] by simp
  show ?thesis
    using incrementPackageVersion_match [OF ctl found] sub
    by (simp add: int_of_digits_str)
qed

text \<open>
  Where the \<open>Version:\<close> line is the first place of the file at which the pattern matches (no
  \<open>V\<close> stands before it), the version step adds one to the last component and leaves the
  components before it as they are, and a second step continues from the result of the first:
  two successive calls of \<open>incrementPackageVersion\<close> report the steps from \<open>pre.n\<close> to
  \<open>pre.(n+1)\<close> and from \<open>pre.(n+1)\<close> to \<open>pre.(n+2)\<close>, and leave \<open>pre.(n+2)\<close> in the file. The
  example is \<open>1.2.9\<close>, \<open>1.2.10\<close>, \<open>1.2.11\<close>.
\<close>

lemma version_bump_twice:
  assumes ctl: "map_of (fs s) (getControlFilePath s package) =
                  Some (File (before @ ''Version: '' @ pre @ ''.'' @ str_of_nat n @ rest) t)"
    and before: "CHR ''V'' \<notin> set before"
    and pre: "pre \<noteq> []" "\<forall>c \<in> set pre. is_verch c"
    and rest: "rest = [] \<or> \<not> is_verch (hd rest)"
  shows "case andThen (incrementPackageVersion package) (\<lambda>_. incrementPackageVersion package) s of
           (r, s2) \<Rightarrow>
             r = Inr () \<and>
             out s2 = out s @
               [Put (''incremented package version from '' @ pre @ ''.'' @ str_of_nat n
                     @ '' to '' @ pre @ ''.'' @ str_of_nat (n + 1)),
                Put (''incremented package version from '' @ pre @ ''.'' @ str_of_nat (n + 1)
                     @ '' to '' @ pre @ ''.'' @ str_of_nat (n + 2))] \<and>
             map_of (fs s2) (getControlFilePath s package) =
               Some (File (before @ ''Version: '' @ pre @ ''.'' @ str_of_nat (n + 2)
                           @ version_sub (''Version: '' @ pre @ ''.'' @ str_of_nat (n + 2))
                               (version_sub (''Version: '' @ pre @ ''.'' @ str_of_nat (n + 1)) rest))
                       (Suc (clock s)))"
proof -
  let ?p = "getControlFilePath s package"
  let ?r1 = "''Version: '' @ pre @ ''.'' @ str_of_nat (n + 1)"
  let ?rest1 = "version_sub ?r1 rest"
  let ?s1 = "s\<lparr>out := out s @ [Put (''incremented package version from '' @ pre @ ''.'' @ str_of_nat n
                                          @ '' to '' @ pre @ ''.'' @ str_of_nat (n + 1))],
              fs := fs_put ?p (File (before @ ?r1 @ ?rest1) (clock s)) (fs s),
              clock := Suc (clock s)\<rparr>"
  have first: "incrementPackageVersion package s = (Inr (), ?s1)"
    using bump_once [OF assms] by simp
  have rest1: "?rest1 = [] \<or> \<not> is_verch (hd ?rest1)"
    by (rule version_sub_head [OF rest]) (simp_all add: is_verch_def is_digit_def)
  have ctl1: "map_of (fs ?s1) (getControlFilePath ?s1 package) =
                Some (File (before @ ''Version: '' @ pre @ ''.'' @ str_of_nat (n + 1) @ ?rest1) (clock s))"
    by (simp add: map_of_fs_put)
  have second: "incrementPackageVersion package ?s1 =
      (Inr (), ?s1\<lparr>out := out ?s1 @ [Put (''incremented package version from '' @ pre @ ''.'' @ str_of_nat (n + 1)
                                          @ '' to '' @ pre @ ''.'' @ str_of_nat (n + 1 + 1))],
                     fs := fs_put (getControlFilePath ?s1 package)
                             (File (before @ ''Version: '' @ pre @ ''.'' @ str_of_nat (n + 1 + 1)
                                    @ version_sub (''Version: '' @ pre @ ''.'' @ str_of_nat (n + 1 + 1)) ?rest1)
                                (clock ?s1))
                             (fs ?s1),
                     clock := Suc (clock ?s1)\<rparr>)"
    by (rule bump_once [OF ctl1 before pre rest1])
  show ?thesis
    unfolding andThen_def first using second
    by (simp add: map_of_fs_put)
qed

lemma version_bump_twice_example:
  "case andThen (incrementPackageVersion ''foo'') (\<lambda>_. incrementPackageVersion ''foo'')
          (new_builder ''/src'' ''/debs'' False None
             [(''/src/foo/DEBIAN/control'', File ''Version: 1.2.9'' 3)] 10 (\<lambda>c f. False)) of
     (r, s2) \<Rightarrow>
       r = Inr () \<and>
       out s2 = [Put ''incremented package version from 1.2.9 to 1.2.10'',
                 Put ''incremented package version from 1.2.10 to 1.2.11''] \<and>
       map_of (fs s2) ''/src/foo/DEBIAN/control'' = Some (File ''Version: 1.2.11'' 11)"
  using version_bump_twice [of "new_builder ''/src'' ''/debs'' False None
             [(''/src/foo/DEBIAN/control'', File ''Version: 1.2.9'' 3)] 10 (\<lambda>c f. False)"
           "''foo''" "[]" "''1.2''" 9 "[]" 3]
  by (simp add: new_builder_def getControlFilePath_def getSourceDirFullPath_def
      str_of_nat.simps digit_char_def is_verch_def is_digit_def)

subsection \<open>How the methods change the builder\<close>

lemma steps_refl: "steps Q s s"
  by (simp add: steps_def)

lemma steps_trans: "steps Q a b \<Longrightarrow> steps Q b c \<Longrightarrow> steps Q a c"
  unfolding steps_def by (elim conjE exE) (simp, metis Un_iff set_append)

lemma evolves_refl: "evolves Q s s"
  by (simp add: evolves_def steps_refl)

lemma evolves_trans: "evolves Q a b \<Longrightarrow> evolves Q b c \<Longrightarrow> evolves Q a c"
  unfolding evolves_def using steps_trans by auto

lemma selects_trans: "selects Q a b \<Longrightarrow> selects Q b c \<Longrightarrow> selects Q a c"
  unfolding selects_def using steps_trans by (meson prefix_order.trans)

lemma evolves_selects: "evolves Q a b \<Longrightarrow> selects Q a b"
  by (simp add: evolves_def selects_def)

lemma new_events_append: "trace s' = trace s @ t \<Longrightarrow> new_events s s' = t"
  by (simp add: new_events_def)

lemma steps_new_events:
  assumes "steps Q a b" "steps Q b c"
  shows "new_events a c = new_events a b @ new_events b c"
  using assms unfolding steps_def new_events_def by auto

lemma steps_events: "steps Q a b \<Longrightarrow> \<forall>e \<in> set (new_events a b). Q e"
  unfolding steps_def new_events_def by auto

lemma steps_trace: "steps Q a b \<Longrightarrow> trace b = trace a @ new_events a b"
  unfolding steps_def new_events_def by auto

lemma andThen_cases:
  assumes "\<And>e s1. m s = (Inl e, s1) \<Longrightarrow> P (Inl e, s1)"
    and "\<And>x s1. m s = (Inr x, s1) \<Longrightarrow> P (k x s1)"
  shows "P (andThen m k s)"
proof (cases "m s")
  case (Pair r s1)
  then show ?thesis
    using assms by (cases r) (simp_all add: andThen_def)
qed

lemma andThen_evolves [evolve]:
  assumes m: "\<And>s. evolves Q s (snd (m s))"
    and k: "\<And>x s. evolves Q s (snd (k x s))"
  shows "evolves Q s (snd (andThen m k s))"
proof (rule andThen_cases)
  fix e s1 assume "m s = (Inl e, s1)"
  then show "evolves Q s (snd (Inl e :: error + 'b, s1))" using m [of s] by simp
next
  fix x s1 assume "m s = (Inr x, s1)"
  then have "evolves Q s s1" using m [of s] by simp
  then show "evolves Q s (snd (k x s1))" using k [of s1 x] evolves_trans by blast
qed

lemma ret_evolves [evolve]: "evolves Q s (snd (ret x s))"
  by (simp add: ret_def evolves_refl)

lemma raise_evolves [evolve]: "evolves Q s (snd (raise e s))"
  by (simp add: raise_def evolves_refl)

lemma put_evolves [evolve]: "evolves Q s (snd (put m s))"
  by (simp add: put_def evolves_def steps_def)

lemma indent_evolves [evolve]: "evolves Q s (snd (indent m s))"
  by (simp add: indent_def evolves_def steps_def)

lemma unIndent_evolves [evolve]: "evolves Q s (snd (unIndent s))"
  by (simp add: unIndent_def evolves_def steps_def)

lemma log_event_evolves: "Q e \<Longrightarrow> evolves Q s (snd (log_event e s))"
  by (simp add: log_event_def evolves_def steps_def)

lemma runCommand_evolves: "Q (Cmd command) \<Longrightarrow> evolves Q s (snd (runCommand command cwd b s))"
  by (simp add: runCommand_def evolves_def steps_def Let_def split: prod.splits)

lemma readFile_evolves [evolve]: "evolves Q s (snd (readFile path s))"
  by (simp add: readFile_def evolves_refl split: option.splits entry.splits)

lemma writeFile_evolves [evolve]: "evolves Q s (snd (writeFile path text s))"
  by (simp add: writeFile_def evolves_def steps_def)

lemma incrementPackageVersion_evolves [evolve]:
  "evolves Q s (snd (incrementPackageVersion package s))"
  unfolding incrementPackageVersion_def Let_def
  by (auto intro!: evolve split: option.splits prod.splits)

lemma removeLoop_evolves:
  assumes "\<And>c. c \<noteq> index_scan \<Longrightarrow> Q (Cmd c)"
  shows "evolves Q s (snd (removeLoop names s))"
proof (induction names arbitrary: s)
  case Nil
  show ?case by (simp add: evolve)
next
  case (Cons name names)
  show ?case
    unfolding removeLoop.simps
    by (intro evolve runCommand_evolves assms Cons) (simp add: index_scan_def)
qed

lemma createWorkingDir_evolves:
  assumes "\<And>c. c \<noteq> index_scan \<Longrightarrow> Q (Cmd c)"
  shows "evolves Q s (snd (createWorkingDir package s))"
  unfolding createWorkingDir_def
  by (intro evolve runCommand_evolves removeLoop_evolves assms) (simp_all add: index_scan_def)

lemma buildDebFile_evolves:
  assumes "\<And>c. c \<noteq> index_scan \<Longrightarrow> Q (Cmd c)"
  shows "evolves Q s (snd (buildDebFile package s))"
  unfolding buildDebFile_def
  by (intro evolve runCommand_evolves assms) (simp_all add: index_scan_def)

lemma removeWorkingDir_evolves:
  assumes "\<And>c. c \<noteq> index_scan \<Longrightarrow> Q (Cmd c)"
  shows "evolves Q s (snd (removeWorkingDir s))"
  unfolding removeWorkingDir_def
  by (intro evolve runCommand_evolves assms) (simp_all add: index_scan_def)

lemma buildPackage_trace:
  assumes "\<And>c. c \<noteq> index_scan \<Longrightarrow> Q (Cmd c)"
  shows "evolves (\<lambda>e. True) s (snd (buildPackage package s)) \<and>
         (\<exists>t. trace (snd (buildPackage package s)) = trace s @ CallBuildPackage package # t \<and>
              (\<forall>e \<in> set t. Q e))"
proof -
  define inner where "inner =
    andThen (incrementPackageVersion package) (\<lambda>_.
    andThen (createWorkingDir package) (\<lambda>_.
    andThen (buildDebFile package) (\<lambda>_. removeWorkingDir)))"
  define s0 where "s0 = s\<lparr>trace := trace s @ [CallBuildPackage package]\<rparr>"
  have inner: "evolves Q s0 (snd (inner s0))"
    unfolding inner_def
    by (intro evolve createWorkingDir_evolves buildDebFile_evolves removeWorkingDir_evolves assms)
  have bp: "buildPackage package s =
      (case inner s0 of
         (Inl PackageProblemOkToContinue, s1) \<Rightarrow> put (''skipping package '' @ quoted package) s1
       | r \<Rightarrow> r)"
    by (simp add: buildPackage_def andThen_def log_event_def inner_def s0_def)
  obtain r s1 where rs: "inner s0 = (r, s1)" by (cases "inner s0")
  have fin: "evolves Q s1 (snd (buildPackage package s))"
    unfolding bp rs
    by (auto simp: evolves_refl put_evolves split: sum.splits error.splits)
  have "evolves Q s0 (snd (buildPackage package s))"
    using inner fin rs evolves_trans by fastforce
  then show ?thesis
    unfolding evolves_def steps_def s0_def by auto
qed

lemma buildPackage_evolves:
  assumes "\<And>c. c \<noteq> index_scan \<Longrightarrow> Q (Cmd c)" "Q (CallBuildPackage package)"
  shows "evolves Q s (snd (buildPackage package s))"
  using buildPackage_trace [where Q = Q and package = package and s = s] assms unfolding evolves_def steps_def by auto

lemma buildLoop_evolves:
  assumes "\<And>c. c \<noteq> index_scan \<Longrightarrow> Q (Cmd c)" "\<And>p. Q (CallBuildPackage p)"
  shows "evolves Q s (snd (buildLoop ps s))"
proof (induction ps arbitrary: s)
  case Nil
  show ?case by (simp add: evolve)
next
  case (Cons p ps)
  show ?case
    unfolding buildLoop.simps Let_def
    by (intro evolve buildPackage_evolves assms Cons)
qed

lemma buildPackages_evolves:
  assumes "\<And>c. c \<noteq> index_scan \<Longrightarrow> Q (Cmd c)" "\<And>p. Q (CallBuildPackage p)"
  shows "evolves Q s (snd (buildPackages s))"
  unfolding buildPackages_def by (rule buildLoop_evolves [OF assms])

lemma refreshAptRepository_evolves:
  assumes "\<And>c. Q (Cmd c)"
  shows "evolves Q s (snd (refreshAptRepository s))"
  unfolding refreshAptRepository_def Let_def
  by (auto intro!: evolve runCommand_evolves assms)

lemma needToRebuildPackage_evolves:
  assumes "\<And>c. c \<noteq> index_scan \<Longrightarrow> Q (Cmd c)" "\<And>p. Q (CallNeedToRebuild p)"
  shows "evolves Q s (snd (needToRebuildPackage package s))"
  unfolding needToRebuildPackage_def Let_def
  by (auto intro!: evolve runCommand_evolves log_event_evolves assms simp: index_scan_def)

lemma andThen_keeps:
  assumes m: "\<And>s. R s (snd (m s))"
    and k: "\<And>x s. R s (snd (k x s))"
    and trans: "\<And>a b c. R a b \<Longrightarrow> R b c \<Longrightarrow> R a c"
  shows "R s (snd (andThen m k s))"
proof (rule andThen_cases)
  fix e s1 assume "m s = (Inl e, s1)"
  then show "R s (snd (Inl e :: error + 'b, s1))" using m [of s] by simp
next
  fix x s1 assume "m s = (Inr x, s1)"
  then have "R s s1" using m [of s] by simp
  then show "R s (snd (k x s1))" using k [of s1 x] trans by blast
qed

lemma andThen_selects:
  assumes "\<And>s. selects Q s (snd (m s))" "\<And>x s. selects Q s (snd (k x s))"
  shows "selects Q s (snd (andThen m k s))"
  by (rule andThen_keeps [where R = "selects Q"]) (use assms selects_trans in blast)+

lemma append_selects: "selects Q s (s\<lparr>packageList := packageList s @ [p]\<rparr>)"
  by (simp add: selects_def steps_def)

lemma selects_refl: "selects Q s s"
  by (simp add: selects_def steps_refl)

lemma addAllLoop_selects:
  assumes "\<And>c. c \<noteq> index_scan \<Longrightarrow> Q (Cmd c)" "\<And>p. Q (CallNeedToRebuild p)"
  shows "selects Q s (snd (addAllLoop force packages s))"
proof (induction packages arbitrary: s)
  case Nil
  show ?case by (simp add: ret_def selects_refl)
next
  case (Cons p ps)
  have need: "selects Q u (snd ((if force then ret True else needToRebuildPackage p) u))" for u
    using evolves_selects [OF needToRebuildPackage_evolves [where Q = Q, OF assms]]
    by (simp add: ret_def selects_refl)
  have add: "selects Q u (snd ((\<lambda>s.
       if need then
         (let fullPath = codeSourceDir s @ ''/'' @ p;
              controlFilePath = getControlFilePath s p
          in if fs_isdir (fs s) fullPath \<and> fs_exists (fs s) controlFilePath
             then ret () (s\<lparr>packageList := packageList s @ [p]\<rparr>)
             else ret () s)
       else put (''skipping package '' @ quoted p @ '' - .deb file already current'') s) u))" for u need
    using evolves_selects [OF put_evolves [where Q = Q]]
    by (simp add: ret_def selects_refl append_selects Let_def)
  show ?case
    unfolding addAllLoop.simps
    by (intro andThen_selects need add Cons)
qed

lemma addAllPackagesToList_selects:
  assumes "\<And>c. c \<noteq> index_scan \<Longrightarrow> Q (Cmd c)" "\<And>p. Q (CallNeedToRebuild p)"
  shows "selects Q s (snd (addAllPackagesToList force s))"
  unfolding addAllPackagesToList_def
  using addAllLoop_selects [where Q = Q, OF assms]
  by (simp add: raise_def selects_refl)

lemma selection_selects:
  assumes "\<And>c. c \<noteq> index_scan \<Longrightarrow> Q (Cmd c)" "\<And>p. Q (CallNeedToRebuild p)"
  shows "selects Q s (snd ((\<lambda>s.
       if arg_all s then addAllPackagesToList True s
       else (case arg_package s of
               Some p \<Rightarrow>
                 if p \<noteq> [] then ret () (s\<lparr>packageList := packageList s @ [p]\<rparr>)
                 else addAllPackagesToList False s
             | None \<Rightarrow> addAllPackagesToList False s)) s))"
  using addAllPackagesToList_selects [where Q = Q, OF assms]
  by (simp add: ret_def append_selects split: option.splits)

lemma doRunSteps_selects: "selects (\<lambda>e. True) s (snd (doRunSteps s))"
  unfolding doRunSteps_def
  by (intro andThen_selects selection_selects evolves_selects buildPackages_evolves
        refreshAptRepository_evolves) simp_all

lemma andThen_Inr:
  assumes "andThen m k s = (Inr y, s')"
  obtains x s1 where "m s = (Inr x, s1)" "k x s1 = (Inr y, s')"
proof (cases "m s")
  case (Pair r s1)
  then show ?thesis
    using assms that by (cases r) (auto simp: andThen_def)
qed

lemma buildLoop_calls:
  "buildLoop ps s = (Inr (), s') \<Longrightarrow>
   \<forall>p \<in> set ps. CallBuildPackage (deb_sub p) \<in> set (new_events s s')"
proof (induction ps arbitrary: s)
  case Nil
  then show ?case by simp
next
  case (Cons p ps)
  let ?pk = "deb_sub p"
  from Cons.prems obtain m1 m2 sa sb sc sd where a: "indent m1 s = (Inr (), sa)"
    and b: "buildPackage ?pk sa = (Inr (), sb)"
    and c: "unIndent sb = (Inr (), sc)"
    and d: "put m2 sc = (Inr (), sd)"
    and l: "buildLoop ps sd = (Inr (), s')"
    unfolding buildLoop.simps Let_def by (auto elim!: andThen_Inr)
  have esa: "evolves (\<lambda>e. True) s sa" using a indent_evolves [of "\<lambda>e. True" s] by (metis snd_conv)
  have esb: "evolves (\<lambda>e. True) sa sb"
    using b buildPackage_trace [where Q = "\<lambda>e. True" and package = ?pk and s = sa] by simp
  have call: "CallBuildPackage ?pk \<in> set (new_events sa sb)"
    using b buildPackage_trace [where Q = "\<lambda>e. True" and package = ?pk and s = sa]
    by (auto simp: new_events_def)
  have esc: "evolves (\<lambda>e. True) sb sc" using c unIndent_evolves [of "\<lambda>e. True" sb] by simp
  have esd: "evolves (\<lambda>e. True) sc sd" using d put_evolves [of "\<lambda>e. True" sc] by (metis snd_conv)
  have es': "evolves (\<lambda>e. True) sd s'"
    using l buildLoop_evolves [of "\<lambda>e. True" sd ps] by simp
  have s_sb: "evolves (\<lambda>e. True) s sb" using esa esb evolves_trans by blast
  have sb_sd: "evolves (\<lambda>e. True) sb sd" using esc esd evolves_trans by blast
  have sb_s': "evolves (\<lambda>e. True) sb s'" using sb_sd es' evolves_trans by blast
  have s_sd: "evolves (\<lambda>e. True) s sd" using s_sb sb_sd evolves_trans by blast
  have st: "evolves Q a b \<Longrightarrow> steps Q a b" for Q a b
    by (simp add: evolves_def)
  have n1: "new_events s s' = new_events s sa @ new_events sa sb @ new_events sb s'"
    using steps_new_events [OF st [OF s_sb] st [OF sb_s']] steps_new_events [OF st [OF esa] st [OF esb]]
    by simp
  have n2: "new_events s s' = new_events s sd @ new_events sd s'"
    using steps_new_events [OF st [OF s_sd] st [OF es']] .
  have "CallBuildPackage ?pk \<in> set (new_events s s')"
    using call n1 by simp
  moreover have "\<forall>q \<in> set ps. CallBuildPackage (deb_sub q) \<in> set (new_events s s')"
    using Cons.IH [OF l] n2 by simp
  ultimately show ?case by simp
qed

lemma tool_find_newer:
  "tool [''find'', d, ''-type'', ''f'', ''-newer'', r] cwd f t = (unlines (find_newer f d r), f, t)"
  by (simp add: tool_def)

lemma needToRebuildPackage_fs: "fs (snd (needToRebuildPackage package s)) = fs s"
  by (simp add: needToRebuildPackage_def andThen_def log_event_def ret_def runCommand_def
      Let_def tool_find_newer)

lemma addAllLoop_fs: "fs (snd (addAllLoop force packages s)) = fs s"
proof (induction packages arbitrary: s)
  case Nil
  show ?case by (simp add: ret_def)
next
  case (Cons p ps)
  show ?case
    unfolding addAllLoop.simps
    by (rule andThen_keeps [where R = "\<lambda>a b. fs b = fs a"], simp add: ret_def needToRebuildPackage_fs,
        rule andThen_keeps [where R = "\<lambda>a b. fs b = fs a"])
       (simp_all add: ret_def put_def Let_def Cons)
qed

lemma addAllPackagesToList_fs: "fs (snd (addAllPackagesToList force s)) = fs s"
  by (simp add: addAllPackagesToList_def raise_def addAllLoop_fs)

lemma doRunSteps_Inr:
  assumes run: "doRunSteps s = (Inr (), s')"
    and Q: "\<And>c. c \<noteq> index_scan \<Longrightarrow> Q (Cmd c)" "\<And>p. Q (CallNeedToRebuild p)"
  obtains s1 s2 where "selects Q s s1" "fs s1 = fs s"
    "buildLoop (packageList s1) s1 = (Inr (), s2)" "refreshAptRepository s2 = (Inr (), s')"
proof -
  define sel :: "unit action" where "sel = (\<lambda>s.
       if arg_all s then addAllPackagesToList True s
       else (case arg_package s of
               Some p \<Rightarrow>
                 if p \<noteq> [] then ret () (s\<lparr>packageList := packageList s @ [p]\<rparr>)
                 else addAllPackagesToList False s
             | None \<Rightarrow> addAllPackagesToList False s))"
  have d: "doRunSteps = andThen sel (\<lambda>_. andThen buildPackages (\<lambda>_. refreshAptRepository))"
    by (simp add: doRunSteps_def sel_def)
  from run obtain u s1 where s1: "sel s = (Inr u, s1)"
    and rest: "andThen buildPackages (\<lambda>_. refreshAptRepository) s1 = (Inr (), s')"
    unfolding d by (rule andThen_Inr)
  from rest obtain v s2 where s2: "buildPackages s1 = (Inr v, s2)"
    and r: "refreshAptRepository s2 = (Inr (), s')"
    by (rule andThen_Inr)
  have "selects Q s (snd (sel s))"
    unfolding sel_def by (rule selection_selects [where Q = Q, OF Q])
  then have e: "selects Q s s1" using s1 by simp
  have "fs (snd (sel s)) = fs s"
    unfolding sel_def by (auto simp: addAllPackagesToList_fs ret_def split: option.splits)
  then have f: "fs s1 = fs s" using s1 by simp
  show thesis
    using that [OF e f _ r] s2 by (simp add: buildPackages_def)
qed

lemma refresh_empty:
  "packageList s = [] \<Longrightarrow> refreshAptRepository s = (Inr (), s') \<Longrightarrow>
   trace s' = trace s \<and> fs s' = fs s \<and> packageList s' = []"
  by (auto simp: refreshAptRepository_def put_def)

lemma runCommand_Inr:
  assumes "runCommand c cwd b s = (Inr x, s')"
  shows "s' = s\<lparr>trace := trace s @ [Cmd c], fs := fst (snd (tool c cwd (fs s) (clock s))),
                 clock := snd (snd (tool c cwd (fs s) (clock s)))\<rparr>"
    and "\<not> failing s c (fs s)"
    and "x = (if b then strip_newlines (fst (tool c cwd (fs s) (clock s)))
              else fst (tool c cwd (fs s) (clock s)))"
  using assms
  by (auto simp: runCommand_def Let_def split: if_splits prod.splits)

lemma tool_gzip:
  "tool [''gzip'', ''--best'', ''--force'', p] cwd f t = ([], gzip f t p, Suc t)"
  by (simp add: tool_def)

lemma tool_index_scan:
  "tool [''dpkg-scanpackages'', ''./'', ''/dev/null''] cwd f t =
     (dpkg_scanpackages f (case cwd of Some d \<Rightarrow> d | None \<Rightarrow> ''.''), f, t)"
  by (simp add: tool_def)

lemma refresh_nonempty:
  assumes ne: "packageList s \<noteq> []" and run: "refreshAptRepository s = (Inr (), s')"
  shows "packageList s' = packageList s \<and>
         new_events s s' = [Cmd index_scan,
                            Cmd [''gzip'', ''--best'', ''--force'', getPackageInfoUncompressedFilename s]] \<and>
         fs_exists (fs s') (getPackageInfoUncompressedFilename s @ ''.gz'')"
proof -
  let ?file = "getPackageInfoUncompressedFilename s"
  define s0 where "s0 = s\<lparr>out := out s @ [Put ''rebuilding APT repository metadata'']\<rparr>"
  have file0: "getPackageInfoUncompressedFilename s0 = ?file"
    by (simp add: s0_def getPackageInfoUncompressedFilename_def)
  have "andThen (runCommand [''dpkg-scanpackages'', ''./'', ''/dev/null''] (Some (debsDir s0)) False)
          (\<lambda>packageInfo. andThen (writeFile ?file packageInfo) (\<lambda>_.
             andThen (runCommand [''gzip'', ''--best'', ''--force'', ?file] None True) (\<lambda>_. ret ()))) s0
        = (Inr (), s')"
    using run ne file0
    by (simp add: refreshAptRepository_def andThen_def [of "put _"] put_def Let_def s0_def)
  then obtain info s1 where scan: "runCommand [''dpkg-scanpackages'', ''./'', ''/dev/null''] (Some (debsDir s0)) False s0 = (Inr info, s1)"
    and rest: "andThen (writeFile ?file info) (\<lambda>_.
             andThen (runCommand [''gzip'', ''--best'', ''--force'', ?file] None True) (\<lambda>_. ret ())) s1 = (Inr (), s')"
    by (rule andThen_Inr)
  from rest obtain u s2 where wr: "writeFile ?file info s1 = (Inr u, s2)"
    and rest2: "andThen (runCommand [''gzip'', ''--best'', ''--force'', ?file] None True) (\<lambda>_. ret ()) s2 = (Inr (), s')"
    by (rule andThen_Inr)
  from rest2 obtain x where gz: "runCommand [''gzip'', ''--best'', ''--force'', ?file] None True s2 = (Inr x, s')"
    by (auto elim!: andThen_Inr simp: ret_def)
  have s1: "s1 = s0\<lparr>trace := trace s0 @ [Cmd [''dpkg-scanpackages'', ''./'', ''/dev/null'']]\<rparr>"
    using runCommand_Inr(1) [OF scan] by (simp add: tool_index_scan)
  have s2: "s2 = s1\<lparr>fs := fs_put ?file (File info (clock s1)) (fs s1), clock := Suc (clock s1)\<rparr>"
    using wr by (auto simp: writeFile_def split: if_splits)
  have s': "s' = s2\<lparr>trace := trace s2 @ [Cmd [''gzip'', ''--best'', ''--force'', ?file]],
                     fs := gzip (fs s2) (clock s2) ?file, clock := Suc (clock s2)\<rparr>"
    using runCommand_Inr(1) [OF gz] by (simp add: tool_gzip)
  have "map_of (fs s2) ?file = Some (File info (clock s1))"
    by (simp add: s2 map_of_fs_put)
  then have "fs_exists (fs s') (?file @ ''.gz'')"
    by (simp add: s' gzip_def fs_exists_def map_of_fs_put)
  moreover have "packageList s' = packageList s"
    by (simp add: s' s2 s1 s0_def)
  moreover have "trace s' = trace s @ [Cmd index_scan, Cmd [''gzip'', ''--best'', ''--force'', ?file]]"
    by (simp add: s' s2 s1 s0_def index_scan_def)
  ultimately show ?thesis
    by (simp add: new_events_append)
qed

subsection \<open>Selection, build loop and index\<close>

text \<open>
  Claim C2, as the code has it. \<open>refreshAptRepository\<close> tests the list of selected packages,
  not a list of built ones: in a pass that returns normally the index scan is invoked if and
  only if \<open>packageList\<close> is not empty at the end of the pass, whether its packages were built
  or skipped. When the list is empty the pass leaves the whole file system as it was; when it
  is not, the compressed index exists afterwards.
\<close>

theorem index_refresh_follows_selection:
  assumes run: "doRunSteps s = (Inr (), s')"
  shows "(Cmd index_scan \<in> set (new_events s s')) = (packageList s' \<noteq> []) \<and>
         (packageList s' = [] \<longrightarrow> fs s' = fs s) \<and>
         (packageList s' \<noteq> [] \<longrightarrow>
            fs_exists (fs s') (getPackageInfoUncompressedFilename s @ ''.gz''))"
proof -
  let ?Q = "\<lambda>e. e \<noteq> Cmd index_scan"
  from run obtain s1 s2 where sel: "selects ?Q s s1" and fs1: "fs s1 = fs s"
    and loop: "buildLoop (packageList s1) s1 = (Inr (), s2)"
    and refresh: "refreshAptRepository s2 = (Inr (), s')"
    by (rule doRunSteps_Inr [where Q = ?Q]) auto
  have build: "evolves ?Q s1 s2"
    using loop buildLoop_evolves [where Q = ?Q and s = s1 and ps = "packageList s1"] by simp
  have s_s2: "steps ?Q s s2"
    using sel build steps_trans unfolding selects_def evolves_def by blast
  have before: "Cmd index_scan \<notin> set (new_events s s2)"
    using steps_events [OF s_s2] by blast
  have pkgfile: "getPackageInfoUncompressedFilename s2 = getPackageInfoUncompressedFilename s"
    using s_s2 by (simp add: steps_def getPackageInfoUncompressedFilename_def)
  show ?thesis
  proof (cases "packageList s2 = []")
    case True
    have r: "trace s' = trace s2" "fs s' = fs s2" "packageList s' = []"
      using refresh_empty [OF True refresh] by simp_all
    have "packageList s1 = []"
      using build True unfolding evolves_def by auto
    then have "s2 = s1" using loop by (simp add: ret_def)
    then have "fs s' = fs s" using r fs1 by simp
    moreover have "new_events s s' = new_events s s2"
      using r by (simp add: new_events_def)
    ultimately show ?thesis using before r by simp
  next
    case False
    have r: "packageList s' = packageList s2"
      "new_events s2 s' = [Cmd index_scan, Cmd [''gzip'', ''--best'', ''--force'', getPackageInfoUncompressedFilename s2]]"
      "fs_exists (fs s') (getPackageInfoUncompressedFilename s2 @ ''.gz'')"
      using refresh_nonempty [OF False refresh] by simp_all
    have "trace s' = trace s2 @ new_events s2 s'"
      using refreshAptRepository_evolves [where Q = "\<lambda>e. True" and s = s2] refresh
      unfolding evolves_def steps_def new_events_def by auto
    moreover obtain t where "trace s2 = trace s @ t"
      using s_s2 unfolding steps_def by auto
    ultimately have "Cmd index_scan \<in> set (new_events s s')"
      using r(2) by (simp add: new_events_def)
    then show ?thesis using False r pkgfile by simp
  qed
qed

text \<open>A pass on the package \<open>foo\<close>, which is built: the hypothesis holds and the index is regenerated.\<close>

theorem index_refresh_follows_selection_witness:
  "doRunSteps (demo False (Some ''foo'')) = (Inr (), snd (doRunSteps (demo False (Some ''foo'')))) \<and>
   Cmd index_scan \<in> set (new_events (demo False (Some ''foo'')) (snd (doRunSteps (demo False (Some ''foo''))))) \<and>
   packageList (snd (doRunSteps (demo False (Some ''foo'')))) = [''foo''] \<and>
   fs_exists (fs (snd (doRunSteps (demo False (Some ''foo''))))) ''/debs/Packages.gz''"
proof -
  let ?w = "demo False (Some ''foo'')"
  have "fst (doRunSteps ?w) = Inr ()" by code_simp
  then have ok: "doRunSteps ?w = (Inr (), snd (doRunSteps ?w))"
    by (simp add: prod_eq_iff)
  have pl: "packageList (snd (doRunSteps ?w)) = [''foo'']" by code_simp
  have name: "getPackageInfoUncompressedFilename ?w @ ''.gz'' = ''/debs/Packages.gz''" by code_simp
  show ?thesis
    using index_refresh_follows_selection [OF ok] ok pl name by simp
qed

text \<open>
  The claim as stated fails: the one selected package \<open>bar\<close> has no control file and is skipped,
  no packaging command runs, and yet the index is scanned, written and compressed.
\<close>

theorem skipped_package_still_refreshes_index:
  "fst (doRunSteps (demo False (Some ''bar''))) = Inr () \<and>
   out (snd (doRunSteps (demo False (Some ''bar'')))) =
     [Indent (''Building package '' @ quoted ''bar''),
      Put ''ERROR: no control file found for bar'',
      Put (''skipping package '' @ quoted ''bar''),
      UnIndent,
      Put (''done with '' @ quoted ''bar''),
      Put ''rebuilding APT repository metadata''] \<and>
   trace (snd (doRunSteps (demo False (Some ''bar'')))) =
     [CallBuildPackage ''bar'', Cmd index_scan,
      Cmd [''gzip'', ''--best'', ''--force'', ''/debs/Packages'']] \<and>
   map_of (fs (demo False (Some ''bar''))) ''/debs/Packages.gz'' = None \<and>
   map_of (fs (snd (doRunSteps (demo False (Some ''bar''))))) ''/debs/Packages.gz'' =
     Some (File ''gzip:'' 11)"
  by code_simp

text \<open>
  Claim C9. \<open>packageList\<close> is never reset: a pass only appends to it, so a second pass in the
  same process (any builder state \<open>again\<close> that holds the list the first pass left) still has the
  packages of the first pass in its list, and when it returns normally it has called
  \<open>buildPackage\<close> for each of them again.
\<close>

theorem package_list_accumulates:
  assumes first: "doRunSteps s = (ra, sa)"
    and shared: "packageList again = packageList sa"
    and second: "doRunSteps again = (rb, sb)"
  shows "prefix (packageList s) (packageList sa) \<and>
         prefix (packageList sa) (packageList sb) \<and>
         (rb = Inr () \<longrightarrow>
            (\<forall>p \<in> set (packageList sa). CallBuildPackage (deb_sub p) \<in> set (new_events again sb)))"
proof -
  have "selects (\<lambda>e. True) s sa"
    using doRunSteps_selects [of s] first by simp
  then have p1: "prefix (packageList s) (packageList sa)"
    unfolding selects_def by auto
  have "selects (\<lambda>e. True) again sb"
    using doRunSteps_selects [of again] second by simp
  then have p2: "prefix (packageList sa) (packageList sb)"
    unfolding selects_def using shared by auto
  have calls: "\<forall>p \<in> set (packageList sa). CallBuildPackage (deb_sub p) \<in> set (new_events again sb)"
    if ok: "rb = Inr ()"
  proof -
    let ?Q = "\<lambda>e. True"
    from second ok have "doRunSteps again = (Inr (), sb)" by simp
    then obtain a b where sel: "selects ?Q again a"
      and loop: "buildLoop (packageList a) a = (Inr (), b)"
      and refresh: "refreshAptRepository b = (Inr (), sb)"
      by (rule doRunSteps_Inr [where Q = ?Q]) auto
    have ab: "evolves ?Q a b"
      using loop buildLoop_evolves [where Q = ?Q and s = a and ps = "packageList a"] by simp
    have b2: "evolves ?Q b sb"
      using refresh refreshAptRepository_evolves [where Q = ?Q and s = b] by simp
    have a2: "evolves ?Q a sb" using ab b2 evolves_trans by blast
    have n: "new_events again sb = new_events again a @ new_events a b @ new_events b sb"
      using steps_new_events [of ?Q again a sb] steps_new_events [of ?Q a b sb] sel a2 ab b2
      unfolding selects_def evolves_def by simp
    have "set (packageList sa) \<subseteq> set (packageList a)"
      using sel shared unfolding selects_def by (auto dest: set_mono_prefix)
    then show ?thesis
      using buildLoop_calls [OF loop] n by auto
  qed
  show ?thesis using p1 p2 calls by blast
qed

text \<open>Two passes with an explicit package each: \<open>foo\<close>, then \<open>bar\<close>; the second builds \<open>foo\<close> again.\<close>

theorem package_list_accumulates_witness:
  "packageList (snd (doRunSteps (demo False (Some ''foo'')))) = [''foo''] \<and>
   packageList (snd (doRunSteps (snd (doRunSteps (demo False (Some ''foo'')))\<lparr>arg_package := Some ''bar''\<rparr>)))
     = [''foo'', ''bar''] \<and>
   fst (doRunSteps (snd (doRunSteps (demo False (Some ''foo'')))\<lparr>arg_package := Some ''bar''\<rparr>)) = Inr () \<and>
   CallBuildPackage ''foo'' \<in>
     set (new_events (snd (doRunSteps (demo False (Some ''foo'')))\<lparr>arg_package := Some ''bar''\<rparr>)
            (snd (doRunSteps (snd (doRunSteps (demo False (Some ''foo'')))\<lparr>arg_package := Some ''bar''\<rparr>))))"
proof -
  let ?s = "demo False (Some ''foo'')"
  let ?again = "snd (doRunSteps ?s)\<lparr>arg_package := Some ''bar''\<rparr>"
  have l1: "packageList (snd (doRunSteps ?s)) = [''foo'']" by code_simp
  have l2: "packageList (snd (doRunSteps ?again)) = [''foo'', ''bar'']" by code_simp
  have ok: "fst (doRunSteps ?again) = Inr ()" by code_simp
  have d: "deb_sub ''foo'' = ''foo''" by code_simp
  have "prefix (packageList ?s) (packageList (snd (doRunSteps ?s))) \<and>
        prefix (packageList (snd (doRunSteps ?s))) (packageList (snd (doRunSteps ?again))) \<and>
        (fst (doRunSteps ?again) = Inr () \<longrightarrow>
           (\<forall>p \<in> set (packageList (snd (doRunSteps ?s))).
              CallBuildPackage (deb_sub p) \<in> set (new_events ?again (snd (doRunSteps ?again)))))"
    by (rule package_list_accumulates [where s = ?s and again = ?again
          and ra = "fst (doRunSteps ?s)" and rb = "fst (doRunSteps ?again)"]) simp_all
  then show ?thesis
    using l1 l2 ok d by simp
qed

lemma explicit_run_events:
  assumes explicit: "arg_package s = Some x" "x \<noteq> []" "\<not> arg_all s"
    and fresh: "packageList s = []"
  shows "(\<exists>t. new_events s (snd (doRunSteps s)) = CallBuildPackage (deb_sub x) # t \<and>
              (\<forall>e \<in> set t. \<exists>c. e = Cmd c)) \<and>
         packageList (snd (doRunSteps s)) = [x]"
proof -
  let ?Q = "\<lambda>e. \<exists>c. e = Cmd c"
  let ?pk = "deb_sub x"
  define s0 where "s0 = s\<lparr>packageList := [x]\<rparr>"
  define tail where "tail = andThen unIndent (\<lambda>_.
       andThen (put (''done with '' @ quoted ?pk)) (\<lambda>_. andThen (buildLoop []) (\<lambda>_. refreshAptRepository)))"
  define sa where "sa = s0\<lparr>out := out s0 @ [Indent (''Building package '' @ quoted ?pk)]\<rparr>"
  have tail: "evolves ?Q u (snd (tail u))" for u
    unfolding tail_def
    by (intro evolve refreshAptRepository_evolves) (simp_all add: evolve)
  have run: "doRunSteps s = andThen (buildPackage ?pk) (\<lambda>_. tail) sa"
    using explicit fresh
    by (simp add: doRunSteps_def buildPackages_def andThen_def ret_def indent_def Let_def
        s0_def sa_def tail_def split: prod.splits sum.splits)
  obtain t where t: "trace (snd (buildPackage ?pk sa)) = trace sa @ CallBuildPackage ?pk # t"
    "\<forall>e \<in> set t. ?Q e"
    using buildPackage_trace [where Q = ?Q and package = ?pk and s = sa] by auto
  have pl: "packageList (snd (buildPackage ?pk sa)) = [x]"
    using buildPackage_evolves [where Q = "\<lambda>e. True" and package = ?pk and s = sa]
    unfolding evolves_def by (simp add: sa_def s0_def)
  have "(\<exists>t. trace (snd (doRunSteps s)) = trace s @ CallBuildPackage ?pk # t \<and> (\<forall>e \<in> set t. ?Q e))
        \<and> packageList (snd (doRunSteps s)) = [x]"
    unfolding run
  proof (rule andThen_cases)
    fix e s1 assume "buildPackage ?pk sa = (Inl e, s1)"
    then show "(\<exists>t. trace (snd (Inl e :: error + unit, s1)) = trace s @ CallBuildPackage ?pk # t \<and> (\<forall>e \<in> set t. ?Q e))
        \<and> packageList (snd (Inl e :: error + unit, s1)) = [x]"
      using t pl by (auto simp: sa_def s0_def)
  next
    fix v s1 assume b: "buildPackage ?pk sa = (Inr v, s1)"
    have "evolves ?Q s1 (snd (tail s1))" by (rule tail)
    then show "(\<exists>t. trace (snd (tail s1)) = trace s @ CallBuildPackage ?pk # t \<and> (\<forall>e \<in> set t. ?Q e))
        \<and> packageList (snd (tail s1)) = [x]"
      using t pl b unfolding evolves_def steps_def by (auto simp: sa_def s0_def)
  qed
  then show ?thesis
    by (auto simp: new_events_def)
qed

subsection \<open>The working directory\<close>

lemma dirkey_slash: "dirkey (p @ ''/'') = p"
  by (simp add: dirkey_def)

lemma tool_rm_rf: "tool [''rm'', ''-rf'', p] cwd f t = ([], rm_rf f p, t)"
  by (simp add: tool_def)

lemma tool_rsync: "tool [''rsync'', ''-a'', a, b] cwd f t = ([], rsync f a b, t)"
  by (simp add: tool_def)

lemma tool_find_name:
  "tool [''find'', d, ''-ignore_readdir_race'', ''-name'', n, ''-exec'', ''rm'', ''-rf'', ''{}'', '';''] cwd f t
     = ([], find_name_rm f d n, t)"
  by (simp add: tool_def)

text \<open>No step of a build raises the exception that \<open>buildPackage\<close> catches, but the version step
  when the control file is missing.\<close>

lemma andThen_no_skip:
  assumes "fst (m s) \<noteq> Inl PackageProblemOkToContinue"
    and "\<And>x u. fst (k x u) \<noteq> Inl PackageProblemOkToContinue"
  shows "fst (andThen m k s) \<noteq> Inl PackageProblemOkToContinue"
proof (rule andThen_cases)
  fix e s1 assume "m s = (Inl e, s1)"
  then show "fst (Inl e :: error + 'b, s1) \<noteq> Inl PackageProblemOkToContinue"
    using assms(1) by simp
next
  fix x s1 assume "m s = (Inr x, s1)"
  show "fst (k x s1) \<noteq> Inl PackageProblemOkToContinue" by (rule assms(2))
qed

lemma runCommand_no_skip: "fst (runCommand c cwd b s) \<noteq> Inl PackageProblemOkToContinue"
  by (simp add: runCommand_def Let_def split: prod.splits)

lemma removeLoop_no_skip: "fst (removeLoop names s) \<noteq> Inl PackageProblemOkToContinue"
proof (induction names arbitrary: s)
  case Nil
  show ?case by (simp add: ret_def)
next
  case (Cons n ns)
  show ?case
    unfolding removeLoop.simps
    by (rule andThen_no_skip) (simp_all add: runCommand_no_skip Cons)
qed

lemma createWorkingDir_no_skip: "fst (createWorkingDir package s) \<noteq> Inl PackageProblemOkToContinue"
  unfolding createWorkingDir_def
  by (intro andThen_no_skip) (simp_all add: put_def runCommand_no_skip removeLoop_no_skip)

lemma buildDebFile_no_skip: "fst (buildDebFile package s) \<noteq> Inl PackageProblemOkToContinue"
  unfolding buildDebFile_def
  by (intro andThen_no_skip) (simp_all add: indent_def unIndent_def runCommand_no_skip)

lemma removeWorkingDir_no_skip: "fst (removeWorkingDir s) \<noteq> Inl PackageProblemOkToContinue"
  unfolding removeWorkingDir_def
  by (intro andThen_no_skip) (simp_all add: put_def ret_def runCommand_no_skip)

lemma incrementPackageVersion_no_skip:
  "fs_exists (fs s) (getControlFilePath s package) \<Longrightarrow>
   fst (incrementPackageVersion package s) \<noteq> Inl PackageProblemOkToContinue"
  by (auto simp: incrementPackageVersion_def Let_def andThen_def readFile_def raise_def put_def
      writeFile_def split: option.splits entry.splits prod.splits sum.splits)

lemma removeWorkingDir_Inr:
  assumes "removeWorkingDir s = (Inr (), s')"
  shows "fs s' = rm_rf (fs s) (getWorkingDirFullPath s)" "debsDir s' = debsDir s"
proof -
  define s0 where "s0 = s\<lparr>out := out s @ [Put ''cleaning up working directory'']\<rparr>"
  have wd: "getWorkingDirFullPath s0 = getWorkingDirFullPath s"
    by (simp add: s0_def getWorkingDirFullPath_def)
  from assms obtain x where run:
    "runCommand [''rm'', ''-rf'', getWorkingDirFullPath s] None True s0 = (Inr x, s')"
    unfolding removeWorkingDir_def
    by (auto simp: put_def ret_def andThen_def s0_def getWorkingDirFullPath_def
        split: prod.splits sum.splits)
  have "s' = s0\<lparr>trace := trace s0 @ [Cmd [''rm'', ''-rf'', getWorkingDirFullPath s]],
                   fs := rm_rf (fs s0) (getWorkingDirFullPath s), clock := clock s0\<rparr>"
    using runCommand_Inr(1) [OF run] by (simp add: tool_rm_rf)
  then show "fs s' = rm_rf (fs s) (getWorkingDirFullPath s)" "debsDir s' = debsDir s"
    by (simp_all add: s0_def)
qed

text \<open>
  Claim C3, as the code has it. \<open>removeWorkingDir\<close> is the last statement of the \<open>try\<close> block and
  there is no \<open>finally\<close>: when the control file exists (so that the package is not skipped) and
  \<open>buildPackage\<close> returns normally, nothing is left at or below the working directory.
\<close>

theorem staging_removed_on_normal_return:
  assumes ctl: "fs_exists (fs s) (getControlFilePath s package)"
    and ok: "buildPackage package s = (Inr (), s')"
  shows "\<not> staging_exists s'"
proof -
  define s0 where "s0 = s\<lparr>trace := trace s @ [CallBuildPackage package]\<rparr>"
  define inner where "inner =
    andThen (incrementPackageVersion package) (\<lambda>_.
    andThen (createWorkingDir package) (\<lambda>_.
    andThen (buildDebFile package) (\<lambda>_. removeWorkingDir)))"
  have bp: "buildPackage package s =
      (case inner s0 of
         (Inl PackageProblemOkToContinue, s1) \<Rightarrow> put (''skipping package '' @ quoted package) s1
       | r \<Rightarrow> r)"
    by (simp add: buildPackage_def andThen_def log_event_def inner_def s0_def)
  have ctl0: "fs_exists (fs s0) (getControlFilePath s0 package)"
    using ctl by (simp add: s0_def getControlFilePath_def getSourceDirFullPath_def)
  have "fst (inner s0) \<noteq> Inl PackageProblemOkToContinue"
    unfolding inner_def
    by (intro andThen_no_skip incrementPackageVersion_no_skip ctl0 createWorkingDir_no_skip
        buildDebFile_no_skip removeWorkingDir_no_skip)
  then have "inner s0 = (Inr (), s')"
    using ok unfolding bp by (cases "inner s0") (auto split: sum.splits error.splits)
  then obtain s3 where "removeWorkingDir s3 = (Inr (), s')"
    unfolding inner_def by (auto elim!: andThen_Inr)
  then have "fs s' = rm_rf (fs s3) (getWorkingDirFullPath s3)" "debsDir s' = debsDir s3"
    using removeWorkingDir_Inr by blast+
  then show ?thesis
    by (auto simp: staging_exists_def rm_rf_def list_ex_iff getWorkingDirFullPath_def Let_def)
qed

text \<open>The package \<open>foo\<close> builds, and the working directory is gone afterwards.\<close>

theorem staging_removed_on_normal_return_witness:
  "fs_exists (fs (demo False None)) (getControlFilePath (demo False None) ''foo'') \<and>
   buildPackage ''foo'' (demo False None) = (Inr (), snd (buildPackage ''foo'' (demo False None))) \<and>
   \<not> staging_exists (snd (buildPackage ''foo'' (demo False None)))"
proof -
  let ?w = "demo False None"
  have ctl: "fs_exists (fs ?w) (getControlFilePath ?w ''foo'')" by code_simp
  have "fst (buildPackage ''foo'' ?w) = Inr ()" by code_simp
  then have ok: "buildPackage ''foo'' ?w = (Inr (), snd (buildPackage ''foo'' ?w))"
    by (simp add: prod_eq_iff)
  show ?thesis
    using staging_removed_on_normal_return [OF ctl ok] ctl ok by simp
qed

text \<open>
  The claim as stated fails: when the packaging tool fails, the exception leaves
  \<open>buildPackage\<close> before \<open>removeWorkingDir\<close> is reached, and the staged tree is still there.
\<close>

theorem failed_packaging_leaves_staging:
  "fst (buildPackage ''foo'' (demo False None\<lparr>failing := dpkg_deb_fails\<rparr>)) =
     Inl (CommandFailed [''dpkg-deb'', ''--build'', ''/debs/.workingDir/'', ''/debs/foo.deb'']) \<and>
   \<not> staging_exists (demo False None\<lparr>failing := dpkg_deb_fails\<rparr>) \<and>
   staging_exists (snd (buildPackage ''foo'' (demo False None\<lparr>failing := dpkg_deb_fails\<rparr>))) \<and>
   map_of (fs (snd (buildPackage ''foo'' (demo False None\<lparr>failing := dpkg_deb_fails\<rparr>))))
     ''/debs/.workingDir/x.py'' = Some (File ''py'' 2)"
  by code_simp

lemma set_find_name_rm:
  "set (find_name_rm f dir n) =
     {(k, e). (k, e) \<in> set f \<and> \<not> (below (dirkey dir) k \<and> list_ex (glob n) (split_path (relpath (dirkey dir) k)))}"
  by (auto simp: find_name_rm_def Let_def)

lemma removeLoop_Inr:
  "removeLoop names s = (Inr (), s') \<Longrightarrow>
   debsDir s' = debsDir s \<and>
   set (fs s') =
     {(k, e). (k, e) \<in> set (fs s) \<and>
        \<not> (below (dirkey (getWorkingDirFullPath s)) k \<and>
           (\<exists>n \<in> set names. list_ex (glob n) (split_path (relpath (dirkey (getWorkingDirFullPath s)) k))))}"
proof (induction names arbitrary: s)
  case Nil
  then show ?case by (auto simp: ret_def)
next
  case (Cons n ns)
  let ?cmd = "[''find'', getWorkingDirFullPath s, ''-ignore_readdir_race'', ''-name'', n,
               ''-exec'', ''rm'', ''-rf'', ''{}'', '';'']"
  from Cons.prems obtain x s1 where run: "runCommand ?cmd None True s = (Inr x, s1)"
    and rest: "removeLoop ns s1 = (Inr (), s')"
    unfolding removeLoop.simps by (auto elim!: andThen_Inr)
  have s1: "s1 = s\<lparr>trace := trace s @ [Cmd ?cmd],
                    fs := find_name_rm (fs s) (getWorkingDirFullPath s) n, clock := clock s\<rparr>"
    using runCommand_Inr(1) [OF run] by (simp add: tool_find_name)
  have wd: "getWorkingDirFullPath s1 = getWorkingDirFullPath s"
    by (simp add: s1 getWorkingDirFullPath_def)
  show ?case
    using Cons.IH [OF rest] unfolding wd
    by (auto simp: s1 set_find_name_rm)
qed

lemma in_copies_iff:
  "((q, x) \<in> set [(g k, y). (k, y) \<leftarrow> f, P k]) = (\<exists>k. (k, x) \<in> set f \<and> P k \<and> q = g k)"
  by (induction f) auto

lemma copies_keys_iff:
  "(q \<in> set (map fst [(g k, y). (k, y) \<leftarrow> f, P k])) = (\<exists>k x. (k, x) \<in> set f \<and> P k \<and> q = g k)"
  by (induction f) auto

lemma fs_exists_iff: "fs_exists f p = (\<exists>x. (p, x) \<in> set f)"
  unfolding fs_exists_def by (induction f) auto

lemma set_rsync_under:
  "((d @ ''/'' @ rel, e) \<in> set (rsync f (s @ ''/'') (d @ ''/''))) =
     ((s @ ''/'' @ rel, e) \<in> set f \<or>
      (\<not> fs_exists f (s @ ''/'' @ rel) \<and> (d @ ''/'' @ rel, e) \<in> set f))"
proof -
  let ?copies = "[(d @ drop (length s) k, x). (k, x) \<leftarrow> f, k = s \<or> below s k]"
  have src: "((k = s \<or> below s k) \<and> d @ ''/'' @ rel = d @ drop (length s) k) = (k = s @ ''/'' @ rel)" for k
    by (auto simp: below_def prefix_def)
  have in_copies: "((d @ ''/'' @ rel, x) \<in> set ?copies) = ((s @ ''/'' @ rel, x) \<in> set f)" for x
    unfolding in_copies_iff using src by metis
  have keys: "(d @ ''/'' @ rel \<in> set (map fst ?copies)) = fs_exists f (s @ ''/'' @ rel)"
    unfolding copies_keys_iff fs_exists_iff using src by metis
  have "rsync f (s @ ''/'') (d @ ''/'') = filter (\<lambda>(k, e). k \<notin> set (map fst ?copies)) f @ ?copies"
    unfolding rsync_def dirkey_slash Let_def ..
  then have "((d @ ''/'' @ rel, e) \<in> set (rsync f (s @ ''/'') (d @ ''/''))) =
        (((d @ ''/'' @ rel, e) \<in> set f \<and> d @ ''/'' @ rel \<notin> set (map fst ?copies)) \<or>
         (d @ ''/'' @ rel, e) \<in> set ?copies)"
    by (simp only: set_append Un_iff set_filter mem_Collect_eq prod.case)
  then show ?thesis
    unfolding in_copies keys by blast
qed

lemma createWorkingDir_Inr:
  assumes "createWorkingDir package s = (Inr (), s')"
  shows "set (fs s') =
     {(k, e). (k, e) \<in> set (rsync (fs s) (getSourceDirFullPath s package) (getWorkingDirFullPath s)) \<and>
        \<not> (below (dirkey (getWorkingDirFullPath s)) k \<and>
           excluded (relpath (dirkey (getWorkingDirFullPath s)) k))}"
proof -
  define s0 where "s0 = s\<lparr>out := out s @ [Put ''creating working dir'']\<rparr>"
  let ?cmd = "[''rsync'', ''-a'', getSourceDirFullPath s package, getWorkingDirFullPath s]"
  have paths: "getSourceDirFullPath s0 package = getSourceDirFullPath s package"
    "getWorkingDirFullPath s0 = getWorkingDirFullPath s"
    by (simp_all add: s0_def getSourceDirFullPath_def getWorkingDirFullPath_def)
  from assms have "andThen (\<lambda>s. runCommand [''rsync'', ''-a'', getSourceDirFullPath s package,
                               getWorkingDirFullPath s] None True s)
                     (\<lambda>_. removeLoop packageFilesToRemoveBeforeBuilding) s0 = (Inr (), s')"
    by (simp add: createWorkingDir_def andThen_def [of "put _"] put_def s0_def)
  then obtain x s1 where run: "runCommand ?cmd None True s0 = (Inr x, s1)"
    and loop: "removeLoop packageFilesToRemoveBeforeBuilding s1 = (Inr (), s')"
    unfolding paths [symmetric] by (rule andThen_Inr)
  have s1: "s1 = s0\<lparr>trace := trace s0 @ [Cmd ?cmd],
                     fs := rsync (fs s0) (getSourceDirFullPath s package) (getWorkingDirFullPath s),
                     clock := clock s0\<rparr>"
    using runCommand_Inr(1) [OF run] by (simp add: tool_rsync)
  have wd: "getWorkingDirFullPath s1 = getWorkingDirFullPath s"
    by (simp add: s1 s0_def getWorkingDirFullPath_def)
  have fs1: "fs s1 = rsync (fs s) (getSourceDirFullPath s package) (getWorkingDirFullPath s)"
    by (simp add: s1 s0_def)
  show ?thesis
    using removeLoop_Inr [OF loop] unfolding wd fs1
    by (simp add: excluded_def list_ex_iff)
qed

text \<open>
  Claim C4, as the code has it. \<open>createWorkingDir\<close> copies the source tree over whatever is at
  the working directory and removes nothing first: after a preparation whose commands all
  succeed, the entry at a relative path below the working directory is the one of the source
  tree where the source has that path, the one that was already staged where it has not, and
  none where a component of the path matches the exclusion list. So the staged tree is exactly
  the sanitized copy of the source tree when nothing was staged before.
\<close>

theorem staged_tree_is_overlay:
  assumes "createWorkingDir package s = (Inr (), s')"
  shows "(((debsDir s @ ''/.workingDir'') @ ''/'' @ rel, e) \<in> set (fs s')) =
           (\<not> excluded rel \<and>
            (((codeSourceDir s @ ''/'' @ package) @ ''/'' @ rel, e) \<in> set (fs s) \<or>
             (\<not> fs_exists (fs s) ((codeSourceDir s @ ''/'' @ package) @ ''/'' @ rel) \<and>
              ((debsDir s @ ''/.workingDir'') @ ''/'' @ rel, e) \<in> set (fs s)))) \<and>
         (\<not> staging_exists s \<longrightarrow>
            (((debsDir s @ ''/.workingDir'') @ ''/'' @ rel, e) \<in> set (fs s')) =
            (\<not> excluded rel \<and> ((codeSourceDir s @ ''/'' @ package) @ ''/'' @ rel, e) \<in> set (fs s)))"
proof -
  let ?d = "debsDir s @ ''/.workingDir''"
  let ?s = "codeSourceDir s @ ''/'' @ package"
  have wd: "getWorkingDirFullPath s = ?d @ ''/''"
    by (simp add: getWorkingDirFullPath_def WORKING_DIR_RELATIVE_def)
  have sd: "getSourceDirFullPath s package = ?s @ ''/''"
    by (simp add: getSourceDirFullPath_def)
  have u: "below ?d (?d @ ''/'' @ rel)" "relpath ?d (?d @ ''/'' @ rel) = rel"
    by (simp_all add: below_def relpath_def)
  have main: "((?d @ ''/'' @ rel, e) \<in> set (fs s')) =
        (\<not> excluded rel \<and> (?d @ ''/'' @ rel, e) \<in> set (rsync (fs s) (?s @ ''/'') (?d @ ''/'')))"
    using createWorkingDir_Inr [OF assms] u unfolding wd sd dirkey_slash by auto
  have absent: "(?d @ ''/'' @ rel, e) \<notin> set (fs s)" if "\<not> staging_exists s"
    using that u(1) unfolding staging_exists_def wd dirkey_slash list_ex_iff by auto
  show ?thesis
    unfolding main set_rsync_under using absent by blast
qed

text \<open>Staging \<open>foo\<close> into an empty output directory: \<open>x.py\<close> is staged, \<open>.git/HEAD\<close> is not.\<close>

theorem staged_tree_is_overlay_witness:
  "createWorkingDir ''foo'' (demo False None) =
     (Inr (), snd (createWorkingDir ''foo'' (demo False None))) \<and>
   \<not> staging_exists (demo False None) \<and>
   (''/debs/.workingDir/x.py'', File ''py'' 2) \<in> set (fs (snd (createWorkingDir ''foo'' (demo False None)))) \<and>
   (''/debs/.workingDir/.git/HEAD'', File ''ref'' 2)
     \<notin> set (fs (snd (createWorkingDir ''foo'' (demo False None))))"
proof -
  let ?w = "demo False None"
  have "fst (createWorkingDir ''foo'' ?w) = Inr ()" by code_simp
  then have ok: "createWorkingDir ''foo'' ?w = (Inr (), snd (createWorkingDir ''foo'' ?w))"
    by (simp add: prod_eq_iff)
  have absent: "\<not> staging_exists ?w" by code_simp
  have dirs: "debsDir ?w = ''/debs''" "codeSourceDir ?w = ''/src''"
    by (simp_all add: demo_def new_builder_def)
  have src: "(''/src/foo/x.py'', File ''py'' 2) \<in> set (fs ?w)" "\<not> excluded ''x.py''"
    "excluded ''.git/HEAD''"
    by code_simp+
  show ?thesis
    using staged_tree_is_overlay [OF ok, of "''x.py''" "File ''py'' 2"]
      staged_tree_is_overlay [OF ok, of "''.git/HEAD''" "File ''ref'' 2"] ok absent src dirs
    by simp
qed

text \<open>
  The claim as stated fails: a file left in the working directory by an earlier run, with no
  counterpart in the source tree of \<open>foo\<close>, is still in the staged tree of \<open>foo\<close>.
\<close>

theorem leftover_staging_survives:
  "fst (createWorkingDir ''foo'' (new_builder ''/src'' ''/debs'' False None leftover_fs 10 no_failure)) =
     Inr () \<and>
   map_of leftover_fs ''/src/foo/old'' = None \<and>
   map_of (fs (snd (createWorkingDir ''foo''
                      (new_builder ''/src'' ''/debs'' False None leftover_fs 10 no_failure))))
     ''/debs/.workingDir/old'' = Some (File ''stale'' 1)"
  by code_simp

subsection \<open>Staleness\<close>

lemma strip_newlines_empty: "(strip_newlines s \<noteq> []) = (\<exists>c \<in> set s. c \<noteq> newline)"
  by (auto simp: strip_newlines_def dropWhile_eq_Nil_conv)

lemma unlines_chars: "(\<exists>c \<in> set (unlines ps). c \<noteq> newline) = (\<exists>p \<in> set ps. \<exists>c \<in> set p. c \<noteq> newline)"
  by (auto simp: unlines_def)

lemma below_has_slash:
  assumes "below d k"
  shows "\<exists>c \<in> set k. c \<noteq> newline"
proof -
  have "CHR ''/'' \<in> set k" using assms by (auto simp: below_def prefix_def)
  moreover have "CHR ''/'' \<noteq> newline" by (simp add: newline_def)
  ultimately show ?thesis by blast
qed

lemma in_keys_iff:
  "(p \<in> set [k. (k, e) \<leftarrow> f, P k e]) = (\<exists>e. (p, e) \<in> set f \<and> P p e)"
  by (induction f) auto

lemma find_newer_iff:
  assumes "map_of f ref = Some r"
  shows "(p \<in> set (find_newer f dir ref)) =
     (\<exists>e. (p, e) \<in> set f \<and> below (dirkey dir) p \<and> is_file e \<and> mtime r < mtime e)"
proof -
  have "find_newer f dir ref =
      [k. (k, e) \<leftarrow> f, below (dirkey dir) k \<and> is_file e \<and> mtime r < mtime e]"
    using assms by (simp add: find_newer_def)
  then show ?thesis
    by (simp only: in_keys_iff)
qed

lemma all_ex_nonempty: "\<forall>p \<in> set xs. Q p \<Longrightarrow> (\<exists>p \<in> set xs. Q p) = (xs \<noteq> [])"
  by (cases xs) auto



subsection \<open>The name a package is built under\<close>

lemma strip_prefix_Some: "strip_prefix p s = Some r \<Longrightarrow> s = p @ r"
  by (induction p s rule: strip_prefix.induct) (auto split: if_splits)

lemma deb_match_here_inner: "deb_match_here (a # pre @ c # ''deb'') = None"
proof (cases "strip_prefix ''deb'' (pre @ c # ''deb'')")
  case None
  then show ?thesis by (simp add: deb_match_here_def)
next
  case (Some r)
  then have eq: "pre @ c # ''deb'' = ''deb'' @ r" by (rule strip_prefix_Some)
  then have "length (pre @ c # ''deb'') = length (''deb'' @ r)" by simp
  then have len: "length r = Suc (length pre)" by simp
  then have "r \<noteq> []" by auto
  moreover have "last r = CHR ''b''"
    using eq \<open>r \<noteq> []\<close> by (metis last_append last.simps list.distinct(1) last_ConsR)
  ultimately have "r \<noteq> [] \<and> r \<noteq> [newline]"
    by (auto simp: newline_def)
  then show ?thesis using Some by (simp add: deb_match_here_def)
qed

lemma deb_sub_suffix: "c \<noteq> newline \<Longrightarrow> deb_sub (pre @ c # ''deb'') = pre"
proof (induction pre)
  case Nil
  then show ?case by (simp add: deb_match_here_def)
next
  case (Cons a pre)
  then show ?case using deb_match_here_inner [of a pre c] by simp
qed

text \<open>
  Claim C10, as the code has it. The \<open>.\<close> of the pattern \<open>.deb$\<close> matches every character but
  a line feed: for a selected name that ends in such a character followed by \<open>deb\<close>, the build
  loop removes these four characters and logs and builds the package under the shortened
  name, and a name given with the explicit-package flag is built under the shortened name
  as well.
\<close>

theorem deb_suffix_stripped:
  assumes "c \<noteq> newline"
  shows "deb_sub (pre @ c # ''deb'') = pre \<and>
         buildLoop ((pre @ c # ''deb'') # rest) =
           andThen (indent (''Building package '' @ quoted pre)) (\<lambda>_.
           andThen (buildPackage pre) (\<lambda>_.
           andThen unIndent (\<lambda>_.
           andThen (put (''done with '' @ quoted pre)) (\<lambda>_.
           buildLoop rest)))) \<and>
         (arg_package s = Some (pre @ c # ''deb'') \<and> \<not> arg_all s \<and> packageList s = [] \<longrightarrow>
            (\<exists>t. new_events s (snd (doRunSteps s)) = CallBuildPackage pre # t \<and>
                 (\<forall>e \<in> set t. \<exists>c. e = Cmd c)))"
proof -
  have d: "deb_sub (pre @ c # ''deb'') = pre"
    using assms by (rule deb_sub_suffix)
  have "\<exists>t. new_events s (snd (doRunSteps s)) = CallBuildPackage pre # t \<and> (\<forall>e \<in> set t. \<exists>c. e = Cmd c)"
    if "arg_package s = Some (pre @ c # ''deb'')" "\<not> arg_all s" "packageList s = []"
    using explicit_run_events [OF that(1) _ that(2,3)] d by simp
  then show ?thesis
    using d by (simp add: Let_def)
qed

text \<open>
  \<open>foo.deb\<close> and \<open>mydeb\<close>; the run for the explicit package \<open>foo.deb\<close> bumps the control file of
  \<open>foo\<close> and writes \<open>foo.deb\<close>.
\<close>

theorem deb_suffix_stripped_witness:
  "CHR ''.'' \<noteq> newline \<and> deb_sub ''foo.deb'' = ''foo'' \<and> deb_sub ''mydeb'' = ''m'' \<and>
   arg_package (demo False (Some ''foo.deb'')) = Some ''foo.deb'' \<and>
   \<not> arg_all (demo False (Some ''foo.deb'')) \<and> packageList (demo False (Some ''foo.deb'')) = [] \<and>
   (\<exists>t. new_events (demo False (Some ''foo.deb'')) (snd (doRunSteps (demo False (Some ''foo.deb'')))) =
          CallBuildPackage ''foo'' # t \<and> (\<forall>e \<in> set t. \<exists>c. e = Cmd c)) \<and>
   fs_exists (fs (snd (doRunSteps (demo False (Some ''foo.deb''))))) ''/debs/foo.deb'' \<and>
   map_of (fs (snd (doRunSteps (demo False (Some ''foo.deb''))))) ''/src/foo/DEBIAN/control'' =
     Some (File ''Version: 1.2.10'' 10)"
proof -
  let ?w = "demo False (Some ''foo.deb'')"
  have c: "CHR ''.'' \<noteq> newline" "CHR ''y'' \<noteq> newline" by (simp_all add: newline_def)
  have h: "arg_package ?w = Some ''foo.deb''" "\<not> arg_all ?w" "packageList ?w = []"
    by (simp_all add: demo_def new_builder_def)
  have built: "fs_exists (fs (snd (doRunSteps ?w))) ''/debs/foo.deb''" by code_simp
  have bumped: "map_of (fs (snd (doRunSteps ?w))) ''/src/foo/DEBIAN/control'' =
      Some (File ''Version: 1.2.10'' 10)" by code_simp
  show ?thesis
    using deb_suffix_stripped [OF c(1), of "''foo''" "[]" ?w]
      deb_suffix_stripped [OF c(2), of "''m''" "[]" ?w] c h built bumped
    by simp
qed

text \<open>
  The claim as stated fails for a line feed before \<open>deb\<close>: the name is left as it is and the
  package is built under the whole name.
\<close>

theorem line_feed_before_deb_is_kept:
  "deb_sub (CHR ''x'' # newline # ''deb'') = CHR ''x'' # newline # ''deb'' \<and>
   take 1 (trace (snd (buildLoop [CHR ''x'' # newline # ''deb''] (demo False None)))) =
     [CallBuildPackage (CHR ''x'' # newline # ''deb'')]"
  by code_simp

subsection \<open>A run with an explicit package\<close>

text \<open>
  What a build that returns normally has invoked and written, method by method. The archive
  survives the removal of the working directory and the refresh of the index when its path
  is not below the working directory, which holds for every package name without a slash.
\<close>

lemma tool_rm_f: "tool [''rm'', ''-f'', p] cwd f t = ([], rm_f f p, t)"
  by (simp add: tool_def)

lemma tool_dpkg_deb:
  "tool [''dpkg-deb'', ''--build'', d, p] cwd f t = ([], dpkg_deb_build f t d p, Suc t)"
  by (simp add: tool_def)

lemma deb_sub_set: "set (deb_sub x) \<subseteq> set x"
proof (induction x)
  case Nil
  show ?case by simp
next
  case (Cons c cs)
  show ?case
  proof (cases "deb_match_here (c # cs)")
    case None
    then show ?thesis using Cons by auto
  next
    case (Some r)
    then obtain q where "strip_prefix ''deb'' cs = Some q" "r = q"
      by (auto simp: deb_match_here_def split: if_splits option.splits)
    then have "cs = ''deb'' @ r" using strip_prefix_Some by blast
    then have "set r \<subseteq> set cs" by auto
    then show ?thesis using Some by auto
  qed
qed

lemma map_of_rm_rf:
  "\<not> (q = dirkey p \<or> below (dirkey p) q) \<Longrightarrow> map_of (rm_rf f p) q = map_of f q"
  unfolding rm_rf_def Let_def by (induction f) auto

lemma map_of_rm_f: "q \<noteq> p \<Longrightarrow> map_of (rm_f f p) q = map_of f q"
  unfolding rm_f_def by (induction f) auto

lemma incrementPackageVersion_Inr:
  assumes "incrementPackageVersion package s = (Inr (), s')"
  shows "trace s' = trace s \<and> clock s' = Suc (clock s) \<and> debsDir s' = debsDir s \<and>
         packageList s' = packageList s"
  using assms
  by (auto simp: incrementPackageVersion_def Let_def andThen_def readFile_def raise_def put_def
      writeFile_def split: option.splits entry.splits prod.splits sum.splits if_splits)

lemma removeLoop_trace:
  "removeLoop names s = (Inr (), s') \<Longrightarrow>
   trace s' = trace s @
     map (\<lambda>name. Cmd [''find'', getWorkingDirFullPath s, ''-ignore_readdir_race'', ''-name'', name,
                      ''-exec'', ''rm'', ''-rf'', ''{}'', '';'']) names \<and>
   clock s' = clock s \<and> debsDir s' = debsDir s \<and> packageList s' = packageList s"
proof (induction names arbitrary: s)
  case Nil
  then show ?case by (auto simp: ret_def)
next
  case (Cons n ns)
  let ?cmd = "[''find'', getWorkingDirFullPath s, ''-ignore_readdir_race'', ''-name'', n,
               ''-exec'', ''rm'', ''-rf'', ''{}'', '';'']"
  from Cons.prems obtain x s1 where run: "runCommand ?cmd None True s = (Inr x, s1)"
    and rest: "removeLoop ns s1 = (Inr (), s')"
    unfolding removeLoop.simps by (auto elim!: andThen_Inr)
  have s1: "s1 = s\<lparr>trace := trace s @ [Cmd ?cmd],
                    fs := find_name_rm (fs s) (getWorkingDirFullPath s) n, clock := clock s\<rparr>"
    using runCommand_Inr(1) [OF run] by (simp add: tool_find_name)
  have wd: "getWorkingDirFullPath s1 = getWorkingDirFullPath s"
    by (simp add: s1 getWorkingDirFullPath_def)
  show ?case
    using Cons.IH [OF rest] unfolding wd by (simp add: s1)
qed

lemma createWorkingDir_trace:
  assumes "createWorkingDir package s = (Inr (), s')"
  shows "trace s' = trace s @
           Cmd [''rsync'', ''-a'', getSourceDirFullPath s package, getWorkingDirFullPath s] #
           map (\<lambda>name. Cmd [''find'', getWorkingDirFullPath s, ''-ignore_readdir_race'', ''-name'', name,
                            ''-exec'', ''rm'', ''-rf'', ''{}'', '';'']) packageFilesToRemoveBeforeBuilding \<and>
         clock s' = clock s \<and> debsDir s' = debsDir s \<and> packageList s' = packageList s"
proof -
  define s0 where "s0 = s\<lparr>out := out s @ [Put ''creating working dir'']\<rparr>"
  let ?cmd = "[''rsync'', ''-a'', getSourceDirFullPath s package, getWorkingDirFullPath s]"
  have paths: "getSourceDirFullPath s0 package = getSourceDirFullPath s package"
    "getWorkingDirFullPath s0 = getWorkingDirFullPath s"
    by (simp_all add: s0_def getSourceDirFullPath_def getWorkingDirFullPath_def)
  from assms have "andThen (\<lambda>s. runCommand [''rsync'', ''-a'', getSourceDirFullPath s package,
                               getWorkingDirFullPath s] None True s)
                     (\<lambda>_. removeLoop packageFilesToRemoveBeforeBuilding) s0 = (Inr (), s')"
    by (simp add: createWorkingDir_def andThen_def [of "put _"] put_def s0_def)
  then obtain x s1 where run: "runCommand ?cmd None True s0 = (Inr x, s1)"
    and loop: "removeLoop packageFilesToRemoveBeforeBuilding s1 = (Inr (), s')"
    unfolding paths [symmetric] by (rule andThen_Inr)
  have s1: "s1 = s0\<lparr>trace := trace s0 @ [Cmd ?cmd],
                     fs := rsync (fs s0) (getSourceDirFullPath s package) (getWorkingDirFullPath s),
                     clock := clock s0\<rparr>"
    using runCommand_Inr(1) [OF run] by (simp add: tool_rsync)
  have wd: "getWorkingDirFullPath s1 = getWorkingDirFullPath s"
    by (simp add: s1 s0_def getWorkingDirFullPath_def)
  show ?thesis
    using removeLoop_trace [OF loop] unfolding wd by (simp add: s1 s0_def)
qed

lemma buildDebFile_Inr:
  assumes "buildDebFile package s = (Inr (), s')"
  shows "trace s' = trace s @
           [Cmd [''rm'', ''-f'', getDebFileFullPath s package],
            Cmd [''dpkg-deb'', ''--build'', getWorkingDirFullPath s, getDebFileFullPath s package]] \<and>
         clock s' = Suc (clock s) \<and> debsDir s' = debsDir s \<and> packageList s' = packageList s \<and>
         (\<exists>c. map_of (fs s') (getDebFileFullPath s package) = Some (File c (clock s)))"
proof -
  define s0 where "s0 = s\<lparr>out := out s @ [Indent ''building .deb file'']\<rparr>"
  let ?deb = "getDebFileFullPath s package"
  let ?wd = "getWorkingDirFullPath s"
  have "andThen (\<lambda>s. runCommand [''rm'', ''-f'', getDebFileFullPath s package] None True s) (\<lambda>_.
        andThen (\<lambda>s. runCommand [''dpkg-deb'', ''--build'', getWorkingDirFullPath s,
                               getDebFileFullPath s package] (Some (debsDir s)) True s) (\<lambda>_.
        unIndent)) s0 = (Inr (), s')"
    using assms by (simp add: buildDebFile_def andThen_def [of "indent _"] indent_def s0_def)
  then obtain x s1 where rm: "runCommand [''rm'', ''-f'', getDebFileFullPath s0 package] None True s0 = (Inr x, s1)"
    and rest: "andThen (\<lambda>s. runCommand [''dpkg-deb'', ''--build'', getWorkingDirFullPath s,
                               getDebFileFullPath s package] (Some (debsDir s)) True s) (\<lambda>_.
        unIndent) s1 = (Inr (), s')"
    by (rule andThen_Inr)
  from rest obtain y s2 where dp: "runCommand [''dpkg-deb'', ''--build'', getWorkingDirFullPath s1,
                               getDebFileFullPath s1 package] (Some (debsDir s1)) True s1 = (Inr y, s2)"
    and fin: "unIndent s2 = (Inr (), s')"
    by (rule andThen_Inr)
  have p0: "getDebFileFullPath s0 package = ?deb"
    by (simp add: s0_def getDebFileFullPath_def)
  have s1: "s1 = s0\<lparr>trace := trace s0 @ [Cmd [''rm'', ''-f'', ?deb]],
                     fs := rm_f (fs s0) ?deb, clock := clock s0\<rparr>"
    using runCommand_Inr(1) [OF rm] unfolding p0 by (simp add: tool_rm_f)
  have p1: "getDebFileFullPath s1 package = ?deb" "getWorkingDirFullPath s1 = ?wd"
    by (simp_all add: s1 s0_def getDebFileFullPath_def getWorkingDirFullPath_def)
  have s2: "s2 = s1\<lparr>trace := trace s1 @ [Cmd [''dpkg-deb'', ''--build'', ?wd, ?deb]],
                     fs := dpkg_deb_build (fs s1) (clock s1) ?wd ?deb, clock := Suc (clock s1)\<rparr>"
    using runCommand_Inr(1) [OF dp] unfolding p1 by (simp add: tool_dpkg_deb)
  have s': "s' = s2\<lparr>out := out s2 @ [UnIndent]\<rparr>"
    using fin by (auto simp: unIndent_def)
  show ?thesis
    by (simp add: s' s2 s1 s0_def dpkg_deb_build_def map_of_fs_put)
qed

lemma removeWorkingDir_trace:
  assumes "removeWorkingDir s = (Inr (), s')"
  shows "trace s' = trace s @ [Cmd [''rm'', ''-rf'', getWorkingDirFullPath s]] \<and>
         clock s' = clock s \<and> packageList s' = packageList s"
proof -
  define s0 where "s0 = s\<lparr>out := out s @ [Put ''cleaning up working directory'']\<rparr>"
  from assms obtain x where run:
    "runCommand [''rm'', ''-rf'', getWorkingDirFullPath s] None True s0 = (Inr x, s')"
    unfolding removeWorkingDir_def
    by (auto simp: put_def ret_def andThen_def s0_def getWorkingDirFullPath_def
        split: prod.splits sum.splits)
  have "s' = s0\<lparr>trace := trace s0 @ [Cmd [''rm'', ''-rf'', getWorkingDirFullPath s]],
                   fs := rm_rf (fs s0) (getWorkingDirFullPath s), clock := clock s0\<rparr>"
    using runCommand_Inr(1) [OF run] by (simp add: tool_rm_rf)
  then show ?thesis
    by (simp add: s0_def)
qed


lemma refresh_keeps:
  assumes ne: "packageList s \<noteq> []" and run: "refreshAptRepository s = (Inr (), s')"
    and q: "q \<noteq> getPackageInfoUncompressedFilename s" "q \<noteq> getPackageInfoUncompressedFilename s @ ''.gz''"
  shows "map_of (fs s') q = map_of (fs s) q \<and> clock s' = Suc (Suc (clock s))"
proof -
  let ?file = "getPackageInfoUncompressedFilename s"
  define s0 where "s0 = s\<lparr>out := out s @ [Put ''rebuilding APT repository metadata'']\<rparr>"
  have file0: "getPackageInfoUncompressedFilename s0 = ?file"
    by (simp add: s0_def getPackageInfoUncompressedFilename_def)
  have "andThen (runCommand [''dpkg-scanpackages'', ''./'', ''/dev/null''] (Some (debsDir s0)) False)
          (\<lambda>packageInfo. andThen (writeFile ?file packageInfo) (\<lambda>_.
             andThen (runCommand [''gzip'', ''--best'', ''--force'', ?file] None True) (\<lambda>_. ret ()))) s0
        = (Inr (), s')"
    using run ne file0
    by (simp add: refreshAptRepository_def andThen_def [of "put _"] put_def Let_def s0_def)
  then obtain info s1 where scan: "runCommand [''dpkg-scanpackages'', ''./'', ''/dev/null''] (Some (debsDir s0)) False s0 = (Inr info, s1)"
    and rest: "andThen (writeFile ?file info) (\<lambda>_.
             andThen (runCommand [''gzip'', ''--best'', ''--force'', ?file] None True) (\<lambda>_. ret ())) s1 = (Inr (), s')"
    by (rule andThen_Inr)
  from rest obtain u s2 where wr: "writeFile ?file info s1 = (Inr u, s2)"
    and rest2: "andThen (runCommand [''gzip'', ''--best'', ''--force'', ?file] None True) (\<lambda>_. ret ()) s2 = (Inr (), s')"
    by (rule andThen_Inr)
  from rest2 obtain x where gz: "runCommand [''gzip'', ''--best'', ''--force'', ?file] None True s2 = (Inr x, s')"
    by (auto elim!: andThen_Inr simp: ret_def)
  have s1: "s1 = s0\<lparr>trace := trace s0 @ [Cmd [''dpkg-scanpackages'', ''./'', ''/dev/null'']]\<rparr>"
    using runCommand_Inr(1) [OF scan] by (simp add: tool_index_scan)
  have s2: "s2 = s1\<lparr>fs := fs_put ?file (File info (clock s1)) (fs s1), clock := Suc (clock s1)\<rparr>"
    using wr by (auto simp: writeFile_def split: if_splits)
  have s': "s' = s2\<lparr>trace := trace s2 @ [Cmd [''gzip'', ''--best'', ''--force'', ?file]],
                     fs := gzip (fs s2) (clock s2) ?file, clock := Suc (clock s2)\<rparr>"
    using runCommand_Inr(1) [OF gz] by (simp add: tool_gzip)
  have written: "map_of (fs s2) ?file = Some (File info (clock s1))"
    by (simp add: s2 map_of_fs_put)
  have "map_of (fs s') q = map_of (fs s2) q"
    using q written by (simp add: s' gzip_def map_of_fs_put map_of_rm_f)
  moreover have "map_of (fs s2) q = map_of (fs s) q"
    using q by (simp add: s2 s1 s0_def map_of_fs_put)
  moreover have "clock s' = Suc (Suc (clock s))"
    by (simp add: s' s2 s1 s0_def)
  ultimately show ?thesis by simp
qed

lemma buildPackage_Inr:
  assumes ctl: "fs_exists (fs s) (getControlFilePath s package)"
    and ok: "buildPackage package s = (Inr (), s')"
  shows "trace s' = trace s @
           CallBuildPackage package #
           Cmd [''rsync'', ''-a'', getSourceDirFullPath s package, getWorkingDirFullPath s] #
           map (\<lambda>name. Cmd [''find'', getWorkingDirFullPath s, ''-ignore_readdir_race'', ''-name'', name,
                            ''-exec'', ''rm'', ''-rf'', ''{}'', '';'']) packageFilesToRemoveBeforeBuilding @
           [Cmd [''rm'', ''-f'', getDebFileFullPath s package],
            Cmd [''dpkg-deb'', ''--build'', getWorkingDirFullPath s, getDebFileFullPath s package],
            Cmd [''rm'', ''-rf'', getWorkingDirFullPath s]]"
    and "clock s' = Suc (Suc (clock s))"
    and "packageList s' = packageList s"
    and "\<not> (getDebFileFullPath s package = dirkey (getWorkingDirFullPath s) \<or>
            below (dirkey (getWorkingDirFullPath s)) (getDebFileFullPath s package)) \<Longrightarrow>
         \<exists>c. map_of (fs s') (getDebFileFullPath s package) = Some (File c (Suc (clock s)))"
proof -
  define s0 where "s0 = s\<lparr>trace := trace s @ [CallBuildPackage package]\<rparr>"
  define inner where "inner =
    andThen (incrementPackageVersion package) (\<lambda>_.
    andThen (createWorkingDir package) (\<lambda>_.
    andThen (buildDebFile package) (\<lambda>_. removeWorkingDir)))"
  have bp: "buildPackage package s =
      (case inner s0 of
         (Inl PackageProblemOkToContinue, s1) \<Rightarrow> put (''skipping package '' @ quoted package) s1
       | r \<Rightarrow> r)"
    by (simp add: buildPackage_def andThen_def log_event_def inner_def s0_def)
  have ctl0: "fs_exists (fs s0) (getControlFilePath s0 package)"
    using ctl by (simp add: s0_def getControlFilePath_def getSourceDirFullPath_def)
  have "fst (inner s0) \<noteq> Inl PackageProblemOkToContinue"
    unfolding inner_def
    by (intro andThen_no_skip incrementPackageVersion_no_skip ctl0 createWorkingDir_no_skip
        buildDebFile_no_skip removeWorkingDir_no_skip)
  then have "inner s0 = (Inr (), s')"
    using ok unfolding bp by (cases "inner s0") (auto split: sum.splits error.splits)
  then obtain s1 s2 s3 where a: "incrementPackageVersion package s0 = (Inr (), s1)"
    and b: "createWorkingDir package s1 = (Inr (), s2)"
    and c: "buildDebFile package s2 = (Inr (), s3)"
    and d: "removeWorkingDir s3 = (Inr (), s')"
    unfolding inner_def by (auto elim!: andThen_Inr)
  note A = incrementPackageVersion_Inr [OF a]
  note B = createWorkingDir_trace [OF b]
  note C = buildDebFile_Inr [OF c]
  note D = removeWorkingDir_trace [OF d]
  note D2 = removeWorkingDir_Inr [OF d]
  have dirs: "debsDir s1 = debsDir s" "debsDir s2 = debsDir s" "debsDir s3 = debsDir s"
    using A B C by (simp_all add: s0_def)
  have src: "codeSourceDir s1 = codeSourceDir s"
    using a incrementPackageVersion_evolves [of "\<lambda>e. True" s0 package]
    by (simp add: evolves_def steps_def s0_def)
  have paths: "getWorkingDirFullPath s1 = getWorkingDirFullPath s"
    "getWorkingDirFullPath s2 = getWorkingDirFullPath s"
    "getWorkingDirFullPath s3 = getWorkingDirFullPath s"
    "getDebFileFullPath s2 package = getDebFileFullPath s package"
    "getSourceDirFullPath s1 package = getSourceDirFullPath s package"
    using dirs src by (simp_all add: getWorkingDirFullPath_def getDebFileFullPath_def getSourceDirFullPath_def)
  show "trace s' = trace s @
           CallBuildPackage package #
           Cmd [''rsync'', ''-a'', getSourceDirFullPath s package, getWorkingDirFullPath s] #
           map (\<lambda>name. Cmd [''find'', getWorkingDirFullPath s, ''-ignore_readdir_race'', ''-name'', name,
                            ''-exec'', ''rm'', ''-rf'', ''{}'', '';'']) packageFilesToRemoveBeforeBuilding @
           [Cmd [''rm'', ''-f'', getDebFileFullPath s package],
            Cmd [''dpkg-deb'', ''--build'', getWorkingDirFullPath s, getDebFileFullPath s package],
            Cmd [''rm'', ''-rf'', getWorkingDirFullPath s]]"
    using A B C D unfolding paths by (simp add: s0_def)
  show "clock s' = Suc (Suc (clock s))"
    using A B C D by (simp add: s0_def)
  show "packageList s' = packageList s"
    using A B C D by (simp add: s0_def)
  show "\<exists>c. map_of (fs s') (getDebFileFullPath s package) = Some (File c (Suc (clock s)))"
    if "\<not> (getDebFileFullPath s package = dirkey (getWorkingDirFullPath s) \<or>
            below (dirkey (getWorkingDirFullPath s)) (getDebFileFullPath s package))"
  proof -
    have "map_of (fs s') (getDebFileFullPath s package) = map_of (fs s3) (getDebFileFullPath s package)"
      unfolding D2(1) paths by (rule map_of_rm_rf [OF that])
    moreover have "clock s2 = Suc (clock s)"
      using A B by (simp add: s0_def)
    ultimately show ?thesis
      using C unfolding paths by simp
  qed
qed


lemma deb_path_apart:
  assumes "CHR ''/'' \<notin> set p"
  shows "getDebFileFullPath s p \<noteq> getPackageInfoUncompressedFilename s"
    and "getDebFileFullPath s p \<noteq> getPackageInfoUncompressedFilename s @ ''.gz''"
    and "\<not> (getDebFileFullPath s p = dirkey (getWorkingDirFullPath s) \<or>
            below (dirkey (getWorkingDirFullPath s)) (getDebFileFullPath s p))"
proof -
  have b: "last (getDebFileFullPath s p) = CHR ''b''"
    by (simp add: getDebFileFullPath_def)
  have "last (getPackageInfoUncompressedFilename s) = CHR ''s''"
    by (simp add: getPackageInfoUncompressedFilename_def APT_PACKAGES_BASE_FILENAME_def)
  then show "getDebFileFullPath s p \<noteq> getPackageInfoUncompressedFilename s"
    using b by auto
  have "last (getPackageInfoUncompressedFilename s @ ''.gz'') = CHR ''z''"
    by simp
  then show "getDebFileFullPath s p \<noteq> getPackageInfoUncompressedFilename s @ ''.gz''"
    using b by auto
  have wd: "dirkey (getWorkingDirFullPath s) = debsDir s @ ''/.workingDir''"
    using dirkey_slash [of "debsDir s @ ''/.workingDir''"]
    by (simp add: getWorkingDirFullPath_def WORKING_DIR_RELATIVE_def)
  have "last (debsDir s @ ''/.workingDir'') = CHR ''r''"
    by simp
  then have ne: "getDebFileFullPath s p \<noteq> dirkey (getWorkingDirFullPath s)"
    unfolding wd using b by auto
  have "\<not> below (dirkey (getWorkingDirFullPath s)) (getDebFileFullPath s p)"
  proof
    assume "below (dirkey (getWorkingDirFullPath s)) (getDebFileFullPath s p)"
    then have "prefix ''.workingDir/'' (p @ ''.deb'')"
      unfolding wd by (simp add: below_def getDebFileFullPath_def)
    then obtain zs where "p @ ''.deb'' = ''.workingDir/'' @ zs"
      by (auto simp: prefix_def)
    then have "CHR ''/'' \<in> set (p @ ''.deb'')"
      by simp
    then show False using assms by simp
  qed
  then show "\<not> (getDebFileFullPath s p = dirkey (getWorkingDirFullPath s) \<or>
            below (dirkey (getWorkingDirFullPath s)) (getDebFileFullPath s p))"
    using ne by simp
qed

lemma explicit_run_effects:
  assumes explicit: "arg_package s = Some x" "x \<noteq> []" "\<not> arg_all s"
    and fresh: "packageList s = []"
    and ctl: "fs_exists (fs s) (getControlFilePath s (deb_sub x))"
    and ok: "doRunSteps s = (Inr (), s')"
  shows "new_events s s' =
           CallBuildPackage (deb_sub x) #
           Cmd [''rsync'', ''-a'', getSourceDirFullPath s (deb_sub x), getWorkingDirFullPath s] #
           map (\<lambda>name. Cmd [''find'', getWorkingDirFullPath s, ''-ignore_readdir_race'', ''-name'', name,
                            ''-exec'', ''rm'', ''-rf'', ''{}'', '';'']) packageFilesToRemoveBeforeBuilding @
           [Cmd [''rm'', ''-f'', getDebFileFullPath s (deb_sub x)],
            Cmd [''dpkg-deb'', ''--build'', getWorkingDirFullPath s, getDebFileFullPath s (deb_sub x)],
            Cmd [''rm'', ''-rf'', getWorkingDirFullPath s],
            Cmd index_scan,
            Cmd [''gzip'', ''--best'', ''--force'', getPackageInfoUncompressedFilename s]]"
    and "CHR ''/'' \<notin> set x \<Longrightarrow>
         \<exists>c t. map_of (fs s') (getDebFileFullPath s (deb_sub x)) = Some (File c t) \<and>
               clock s \<le> t \<and> t < clock s'"
proof -
  let ?pk = "deb_sub x"
  define s0 where "s0 = s\<lparr>packageList := [x]\<rparr>"
  define tail where "tail = andThen unIndent (\<lambda>_.
       andThen (put (''done with '' @ quoted ?pk)) (\<lambda>_. andThen (buildLoop []) (\<lambda>_. refreshAptRepository)))"
  define sa where "sa = s0\<lparr>out := out s0 @ [Indent (''Building package '' @ quoted ?pk)]\<rparr>"
  have run: "doRunSteps s = andThen (buildPackage ?pk) (\<lambda>_. tail) sa"
    using explicit fresh
    by (simp add: doRunSteps_def buildPackages_def andThen_def ret_def indent_def Let_def
        s0_def sa_def tail_def split: prod.splits sum.splits)
  from ok obtain u sb where b: "buildPackage ?pk sa = (Inr u, sb)" and t: "tail sb = (Inr (), s')"
    unfolding run by (rule andThen_Inr)
  define sd where "sd = sb\<lparr>out := out sb @ [UnIndent, Put (''done with '' @ quoted ?pk)]\<rparr>"
  have r: "refreshAptRepository sd = (Inr (), s')"
    using t by (simp add: tail_def andThen_def unIndent_def put_def ret_def sd_def)
  have pa: "getControlFilePath sa ?pk = getControlFilePath s ?pk"
    "getSourceDirFullPath sa ?pk = getSourceDirFullPath s ?pk"
    "getWorkingDirFullPath sa = getWorkingDirFullPath s"
    "getDebFileFullPath sa ?pk = getDebFileFullPath s ?pk"
    by (simp_all add: sa_def s0_def getControlFilePath_def getSourceDirFullPath_def
        getWorkingDirFullPath_def getDebFileFullPath_def)
  have ctla: "fs_exists (fs sa) (getControlFilePath sa ?pk)"
    using ctl unfolding pa by (simp add: sa_def s0_def)
  have b': "buildPackage ?pk sa = (Inr (), sb)" using b by simp
  note B = buildPackage_Inr [OF ctla b', unfolded pa]
  have dirs: "debsDir sb = debsDir s"
    using b' buildPackage_evolves [where Q = "\<lambda>e. True" and package = ?pk and s = sa]
    by (simp add: evolves_def steps_def sa_def s0_def)
  have pd: "getPackageInfoUncompressedFilename sd = getPackageInfoUncompressedFilename s"
    using dirs by (simp add: sd_def getPackageInfoUncompressedFilename_def)
  have ne: "packageList sd \<noteq> []"
    using B(3) by (simp add: sd_def sa_def s0_def)
  note R = refresh_nonempty [OF ne r, unfolded pd]
  have tr: "trace s' = trace sd @ [Cmd index_scan,
              Cmd [''gzip'', ''--best'', ''--force'', getPackageInfoUncompressedFilename s]]"
    using R refreshAptRepository_evolves [of "\<lambda>e. True" sd] r steps_trace [of "\<lambda>e. True" sd s']
    by (simp add: evolves_def)
  have "trace s' = trace s @
           CallBuildPackage (deb_sub x) #
           Cmd [''rsync'', ''-a'', getSourceDirFullPath s (deb_sub x), getWorkingDirFullPath s] #
           map (\<lambda>name. Cmd [''find'', getWorkingDirFullPath s, ''-ignore_readdir_race'', ''-name'', name,
                            ''-exec'', ''rm'', ''-rf'', ''{}'', '';'']) packageFilesToRemoveBeforeBuilding @
           [Cmd [''rm'', ''-f'', getDebFileFullPath s (deb_sub x)],
            Cmd [''dpkg-deb'', ''--build'', getWorkingDirFullPath s, getDebFileFullPath s (deb_sub x)],
            Cmd [''rm'', ''-rf'', getWorkingDirFullPath s],
            Cmd index_scan,
            Cmd [''gzip'', ''--best'', ''--force'', getPackageInfoUncompressedFilename s]]"
    unfolding tr using B(1) by (simp add: sd_def sa_def s0_def)
  then show "new_events s s' =
           CallBuildPackage (deb_sub x) #
           Cmd [''rsync'', ''-a'', getSourceDirFullPath s (deb_sub x), getWorkingDirFullPath s] #
           map (\<lambda>name. Cmd [''find'', getWorkingDirFullPath s, ''-ignore_readdir_race'', ''-name'', name,
                            ''-exec'', ''rm'', ''-rf'', ''{}'', '';'']) packageFilesToRemoveBeforeBuilding @
           [Cmd [''rm'', ''-f'', getDebFileFullPath s (deb_sub x)],
            Cmd [''dpkg-deb'', ''--build'', getWorkingDirFullPath s, getDebFileFullPath s (deb_sub x)],
            Cmd [''rm'', ''-rf'', getWorkingDirFullPath s],
            Cmd index_scan,
            Cmd [''gzip'', ''--best'', ''--force'', getPackageInfoUncompressedFilename s]]"
    by (rule new_events_append)
  show "\<exists>c t. map_of (fs s') (getDebFileFullPath s (deb_sub x)) = Some (File c t) \<and>
               clock s \<le> t \<and> t < clock s'"
    if "CHR ''/'' \<notin> set x"
  proof -
    have slash: "CHR ''/'' \<notin> set ?pk"
      using that deb_sub_set [of x] by auto
    note P = deb_path_apart [OF slash, of s]
    obtain c where c: "map_of (fs sb) (getDebFileFullPath s ?pk) = Some (File c (Suc (clock sa)))"
      using B(4) [OF P(3)] by auto
    have K: "map_of (fs s') (getDebFileFullPath s ?pk) = map_of (fs sd) (getDebFileFullPath s ?pk) \<and>
             clock s' = Suc (Suc (clock sd))"
      by (rule refresh_keeps [OF ne r]) (simp_all add: pd P)
    have "clock sd = Suc (Suc (clock s))"
      using B(2) by (simp add: sd_def sa_def s0_def)
    then show ?thesis
      using K c by (simp add: sd_def sa_def s0_def)
  qed
qed

lemma incrementPackageVersion_writes:
  assumes "incrementPackageVersion package s = (Inr (), s')"
  shows "\<exists>text t g1 g2 g3.
           map_of (fs s) (getControlFilePath s package) = Some (File text t) \<and>
           version_search text = Some (g1, g2, g3) \<and>
           fs s' = fs_put (getControlFilePath s package)
                     (File (version_sub (g1 @ g2 @ str_of_nat (int_of_digits g3 + 1)) text) (clock s))
                     (fs s)"
  using assms
  by (auto simp: incrementPackageVersion_def Let_def andThen_def readFile_def raise_def put_def
      writeFile_def split: option.splits entry.splits prod.splits sum.splits if_splits)

lemma map_of_filter_keys:
  "q \<notin> K \<Longrightarrow> map_of (filter (\<lambda>(k, e). k \<notin> K) f) q = map_of f q"
  by (induction f) auto

lemma map_of_rsync:
  assumes "\<not> (q = dirkey dst \<or> below (dirkey dst) q)"
  shows "map_of (rsync f src dst) q = map_of f q"
proof -
  let ?copies = "[(dirkey dst @ drop (length (dirkey src)) k, e). (k, e) \<leftarrow> f,
                   k = dirkey src \<or> below (dirkey src) k]"
  have keys: "q \<notin> set (map fst ?copies)"
  proof
    assume "q \<in> set (map fst ?copies)"
    then obtain k where k: "k = dirkey src \<or> below (dirkey src) k"
      and q: "q = dirkey dst @ drop (length (dirkey src)) k"
      unfolding copies_keys_iff by blast
    from k show False
    proof
      assume "k = dirkey src"
      then show False using q assms by simp
    next
      assume "below (dirkey src) k"
      then obtain r where "k = (dirkey src @ ''/'') @ r"
        by (auto simp: below_def prefix_def)
      then have "q = (dirkey dst @ ''/'') @ r" using q by simp
      then have "below (dirkey dst) q" unfolding below_def by (metis prefixI)
      then show False using assms by simp
    qed
  qed
  then have "map_of ?copies q = None"
    by (simp add: map_of_eq_None_iff)
  moreover have "map_of (filter (\<lambda>(k, e). k \<notin> set (map fst ?copies)) f) q = map_of f q"
    using keys by (rule map_of_filter_keys)
  ultimately show ?thesis
    unfolding rsync_def Let_def by (simp add: map_add_def split: option.splits)
qed

lemma map_of_find_name_rm:
  "\<not> below (dirkey dir) q \<Longrightarrow> map_of (find_name_rm f dir n) q = map_of f q"
  unfolding find_name_rm_def Let_def by (induction f) auto


lemma removeLoop_keeps:
  "removeLoop names s = (Inr (), s') \<Longrightarrow> \<not> below (dirkey (getWorkingDirFullPath s)) q \<Longrightarrow>
   map_of (fs s') q = map_of (fs s) q"
proof (induction names arbitrary: s)
  case Nil
  then show ?case by (auto simp: ret_def)
next
  case (Cons n ns)
  let ?cmd = "[''find'', getWorkingDirFullPath s, ''-ignore_readdir_race'', ''-name'', n,
               ''-exec'', ''rm'', ''-rf'', ''{}'', '';'']"
  from Cons.prems obtain x s1 where run: "runCommand ?cmd None True s = (Inr x, s1)"
    and rest: "removeLoop ns s1 = (Inr (), s')"
    unfolding removeLoop.simps by (auto elim!: andThen_Inr)
  have s1: "s1 = s\<lparr>trace := trace s @ [Cmd ?cmd],
                    fs := find_name_rm (fs s) (getWorkingDirFullPath s) n, clock := clock s\<rparr>"
    using runCommand_Inr(1) [OF run] by (simp add: tool_find_name)
  have wd: "getWorkingDirFullPath s1 = getWorkingDirFullPath s"
    by (simp add: s1 getWorkingDirFullPath_def)
  have "map_of (fs s') q = map_of (fs s1) q"
    using Cons.IH [OF rest] Cons.prems(2) unfolding wd by simp
  then show ?case
    using Cons.prems(2) by (simp add: s1 map_of_find_name_rm)
qed

lemma createWorkingDir_keeps:
  assumes "createWorkingDir package s = (Inr (), s')"
    and "\<not> (q = dirkey (getWorkingDirFullPath s) \<or> below (dirkey (getWorkingDirFullPath s)) q)"
  shows "map_of (fs s') q = map_of (fs s) q"
proof -
  define s0 where "s0 = s\<lparr>out := out s @ [Put ''creating working dir'']\<rparr>"
  let ?cmd = "[''rsync'', ''-a'', getSourceDirFullPath s package, getWorkingDirFullPath s]"
  have paths: "getSourceDirFullPath s0 package = getSourceDirFullPath s package"
    "getWorkingDirFullPath s0 = getWorkingDirFullPath s"
    by (simp_all add: s0_def getSourceDirFullPath_def getWorkingDirFullPath_def)
  from assms(1) have "andThen (\<lambda>s. runCommand [''rsync'', ''-a'', getSourceDirFullPath s package,
                               getWorkingDirFullPath s] None True s)
                     (\<lambda>_. removeLoop packageFilesToRemoveBeforeBuilding) s0 = (Inr (), s')"
    by (simp add: createWorkingDir_def andThen_def [of "put _"] put_def s0_def)
  then obtain x s1 where run: "runCommand ?cmd None True s0 = (Inr x, s1)"
    and loop: "removeLoop packageFilesToRemoveBeforeBuilding s1 = (Inr (), s')"
    unfolding paths [symmetric] by (rule andThen_Inr)
  have s1: "s1 = s0\<lparr>trace := trace s0 @ [Cmd ?cmd],
                     fs := rsync (fs s0) (getSourceDirFullPath s package) (getWorkingDirFullPath s),
                     clock := clock s0\<rparr>"
    using runCommand_Inr(1) [OF run] by (simp add: tool_rsync)
  have wd: "getWorkingDirFullPath s1 = getWorkingDirFullPath s"
    by (simp add: s1 s0_def getWorkingDirFullPath_def)
  have "map_of (fs s') q = map_of (fs s1) q"
    using removeLoop_keeps [OF loop, of q] assms(2) unfolding wd by simp
  moreover have "map_of (fs s1) q = map_of (fs s) q"
    using map_of_rsync [OF assms(2)] by (simp add: s1 s0_def)
  ultimately show ?thesis by simp
qed

lemma buildDebFile_keeps:
  assumes "buildDebFile package s = (Inr (), s')" and "q \<noteq> getDebFileFullPath s package"
  shows "map_of (fs s') q = map_of (fs s) q"
proof -
  define s0 where "s0 = s\<lparr>out := out s @ [Indent ''building .deb file'']\<rparr>"
  let ?deb = "getDebFileFullPath s package"
  let ?wd = "getWorkingDirFullPath s"
  have "andThen (\<lambda>s. runCommand [''rm'', ''-f'', getDebFileFullPath s package] None True s) (\<lambda>_.
        andThen (\<lambda>s. runCommand [''dpkg-deb'', ''--build'', getWorkingDirFullPath s,
                               getDebFileFullPath s package] (Some (debsDir s)) True s) (\<lambda>_.
        unIndent)) s0 = (Inr (), s')"
    using assms(1) by (simp add: buildDebFile_def andThen_def [of "indent _"] indent_def s0_def)
  then obtain x s1 where rm: "runCommand [''rm'', ''-f'', getDebFileFullPath s0 package] None True s0 = (Inr x, s1)"
    and rest: "andThen (\<lambda>s. runCommand [''dpkg-deb'', ''--build'', getWorkingDirFullPath s,
                               getDebFileFullPath s package] (Some (debsDir s)) True s) (\<lambda>_.
        unIndent) s1 = (Inr (), s')"
    by (rule andThen_Inr)
  from rest obtain y s2 where dp: "runCommand [''dpkg-deb'', ''--build'', getWorkingDirFullPath s1,
                               getDebFileFullPath s1 package] (Some (debsDir s1)) True s1 = (Inr y, s2)"
    and fin: "unIndent s2 = (Inr (), s')"
    by (rule andThen_Inr)
  have p0: "getDebFileFullPath s0 package = ?deb"
    by (simp add: s0_def getDebFileFullPath_def)
  have s1: "s1 = s0\<lparr>trace := trace s0 @ [Cmd [''rm'', ''-f'', ?deb]],
                     fs := rm_f (fs s0) ?deb, clock := clock s0\<rparr>"
    using runCommand_Inr(1) [OF rm] unfolding p0 by (simp add: tool_rm_f)
  have p1: "getDebFileFullPath s1 package = ?deb" "getWorkingDirFullPath s1 = ?wd"
    by (simp_all add: s1 s0_def getDebFileFullPath_def getWorkingDirFullPath_def)
  have s2: "s2 = s1\<lparr>trace := trace s1 @ [Cmd [''dpkg-deb'', ''--build'', ?wd, ?deb]],
                     fs := dpkg_deb_build (fs s1) (clock s1) ?wd ?deb, clock := Suc (clock s1)\<rparr>"
    using runCommand_Inr(1) [OF dp] unfolding p1 by (simp add: tool_dpkg_deb)
  have s': "s' = s2\<lparr>out := out s2 @ [UnIndent]\<rparr>"
    using fin by (auto simp: unIndent_def)
  show ?thesis
    using assms(2) by (simp add: s' s2 s1 s0_def dpkg_deb_build_def map_of_fs_put map_of_rm_f)
qed

lemma buildPackage_steps:
  assumes ctl: "fs_exists (fs s) (getControlFilePath s package)"
    and ok: "buildPackage package s = (Inr (), s')"
  obtains s1 s2 s3 where
    "incrementPackageVersion package (s\<lparr>trace := trace s @ [CallBuildPackage package]\<rparr>) = (Inr (), s1)"
    "createWorkingDir package s1 = (Inr (), s2)"
    "buildDebFile package s2 = (Inr (), s3)"
    "removeWorkingDir s3 = (Inr (), s')"
proof -
  define s0 where "s0 = s\<lparr>trace := trace s @ [CallBuildPackage package]\<rparr>"
  define inner where "inner =
    andThen (incrementPackageVersion package) (\<lambda>_.
    andThen (createWorkingDir package) (\<lambda>_.
    andThen (buildDebFile package) (\<lambda>_. removeWorkingDir)))"
  have bp: "buildPackage package s =
      (case inner s0 of
         (Inl PackageProblemOkToContinue, s1) \<Rightarrow> put (''skipping package '' @ quoted package) s1
       | r \<Rightarrow> r)"
    by (simp add: buildPackage_def andThen_def log_event_def inner_def s0_def)
  have ctl0: "fs_exists (fs s0) (getControlFilePath s0 package)"
    using ctl by (simp add: s0_def getControlFilePath_def getSourceDirFullPath_def)
  have "fst (inner s0) \<noteq> Inl PackageProblemOkToContinue"
    unfolding inner_def
    by (intro andThen_no_skip incrementPackageVersion_no_skip ctl0 createWorkingDir_no_skip
        buildDebFile_no_skip removeWorkingDir_no_skip)
  then have "inner s0 = (Inr (), s')"
    using ok unfolding bp by (cases "inner s0") (auto split: sum.splits error.splits)
  then obtain s1 s2 s3 where "incrementPackageVersion package s0 = (Inr (), s1)"
    "createWorkingDir package s1 = (Inr (), s2)"
    "buildDebFile package s2 = (Inr (), s3)"
    "removeWorkingDir s3 = (Inr (), s')"
    unfolding inner_def by (auto elim!: andThen_Inr)
  then show thesis
    using that unfolding s0_def by blast
qed

lemma control_path_apart:
  "getControlFilePath s p \<noteq> getDebFileFullPath s' q"
  "getControlFilePath s p \<noteq> dirkey (getWorkingDirFullPath s')"
  "getControlFilePath s p \<noteq> getPackageInfoUncompressedFilename s'"
  "getControlFilePath s p \<noteq> getPackageInfoUncompressedFilename s' @ ''.gz''"
proof -
  have l: "last (getControlFilePath s p) = CHR ''l''"
    by (simp add: getControlFilePath_def getSourceDirFullPath_def)
  have "last (getDebFileFullPath s' q) = CHR ''b''"
    by (simp add: getDebFileFullPath_def)
  then show "getControlFilePath s p \<noteq> getDebFileFullPath s' q"
    using l by auto
  have "dirkey (getWorkingDirFullPath s') = debsDir s' @ ''/.workingDir''"
    using dirkey_slash [of "debsDir s' @ ''/.workingDir''"]
    by (simp add: getWorkingDirFullPath_def WORKING_DIR_RELATIVE_def)
  then have "last (dirkey (getWorkingDirFullPath s')) = CHR ''r''"
    by simp
  then show "getControlFilePath s p \<noteq> dirkey (getWorkingDirFullPath s')"
    using l by auto
  have "last (getPackageInfoUncompressedFilename s') = CHR ''s''"
    by (simp add: getPackageInfoUncompressedFilename_def APT_PACKAGES_BASE_FILENAME_def)
  then show "getControlFilePath s p \<noteq> getPackageInfoUncompressedFilename s'"
    using l by auto
  have "last (getPackageInfoUncompressedFilename s' @ ''.gz'') = CHR ''z''"
    by simp
  then show "getControlFilePath s p \<noteq> getPackageInfoUncompressedFilename s' @ ''.gz''"
    using l by auto
qed

lemma buildPackage_writes:
  assumes ctl: "fs_exists (fs s) (getControlFilePath s package)"
    and ok: "buildPackage package s = (Inr (), s')"
    and outside: "\<not> below (dirkey (getWorkingDirFullPath s)) (getControlFilePath s package)"
  shows "\<exists>text t g1 g2 g3.
           map_of (fs s) (getControlFilePath s package) = Some (File text t) \<and>
           version_search text = Some (g1, g2, g3) \<and>
           map_of (fs s') (getControlFilePath s package) =
             Some (File (version_sub (g1 @ g2 @ str_of_nat (int_of_digits g3 + 1)) text) (clock s))"
proof -
  let ?s0 = "s\<lparr>trace := trace s @ [CallBuildPackage package]\<rparr>"
  let ?c = "getControlFilePath s package"
  obtain s1 s2 s3 where a: "incrementPackageVersion package ?s0 = (Inr (), s1)"
    and b: "createWorkingDir package s1 = (Inr (), s2)"
    and c: "buildDebFile package s2 = (Inr (), s3)"
    and d: "removeWorkingDir s3 = (Inr (), s')"
    using buildPackage_steps [OF ctl ok] by blast
  have c0: "getControlFilePath ?s0 package = ?c"
    by (simp add: getControlFilePath_def getSourceDirFullPath_def)
  obtain body t g1 g2 g3 where old: "map_of (fs s) ?c = Some (File body t)"
    and found: "version_search body = Some (g1, g2, g3)"
    and f1: "fs s1 = fs_put ?c (File (version_sub (g1 @ g2 @ str_of_nat (int_of_digits g3 + 1)) body) (clock s))
                       (fs s)"
    using incrementPackageVersion_writes [OF a] unfolding c0 by auto
  have dirs: "debsDir s1 = debsDir s" "debsDir s2 = debsDir s" "debsDir s3 = debsDir s"
    using incrementPackageVersion_Inr [OF a] createWorkingDir_trace [OF b] buildDebFile_Inr [OF c]
    by simp_all
  have wd: "getWorkingDirFullPath s1 = getWorkingDirFullPath s"
    "getWorkingDirFullPath s3 = getWorkingDirFullPath s"
    using dirs by (simp_all add: getWorkingDirFullPath_def)
  have out1: "\<not> (?c = dirkey (getWorkingDirFullPath s1) \<or> below (dirkey (getWorkingDirFullPath s1)) ?c)"
    using outside control_path_apart(2) [of s package s1] unfolding wd by simp
  have out3: "\<not> (?c = dirkey (getWorkingDirFullPath s3) \<or> below (dirkey (getWorkingDirFullPath s3)) ?c)"
    using outside control_path_apart(2) [of s package s3] unfolding wd by simp
  have "map_of (fs s') ?c = map_of (fs s3) ?c"
    unfolding removeWorkingDir_Inr(1) [OF d] by (rule map_of_rm_rf [OF out3])
  also have "\<dots> = map_of (fs s2) ?c"
    by (rule buildDebFile_keeps [OF c control_path_apart(1)])
  also have "\<dots> = map_of (fs s1) ?c"
    by (rule createWorkingDir_keeps [OF b out1])
  also have "\<dots> = Some (File (version_sub (g1 @ g2 @ str_of_nat (int_of_digits g3 + 1)) body) (clock s))"
    by (simp add: f1 map_of_fs_put)
  finally show ?thesis
    using old found by blast
qed


lemma explicit_run_steps:
  assumes explicit: "arg_package s = Some x" "x \<noteq> []" "\<not> arg_all s"
    and fresh: "packageList s = []"
    and ok: "doRunSteps s = (Inr (), s')"
  obtains sb where
    "buildPackage (deb_sub x)
       (s\<lparr>packageList := [x], out := out s @ [Indent (''Building package '' @ quoted (deb_sub x))]\<rparr>) =
       (Inr (), sb)"
    "refreshAptRepository (sb\<lparr>out := out sb @ [UnIndent, Put (''done with '' @ quoted (deb_sub x))]\<rparr>) =
       (Inr (), s')"
proof -
  let ?pk = "deb_sub x"
  define tail where "tail = andThen unIndent (\<lambda>_.
       andThen (put (''done with '' @ quoted ?pk)) (\<lambda>_. andThen (buildLoop []) (\<lambda>_. refreshAptRepository)))"
  define sa where "sa = s\<lparr>packageList := [x], out := out s @ [Indent (''Building package '' @ quoted ?pk)]\<rparr>"
  have run: "doRunSteps s = andThen (buildPackage ?pk) (\<lambda>_. tail) sa"
    using explicit fresh
    by (simp add: doRunSteps_def buildPackages_def andThen_def ret_def indent_def Let_def
        sa_def tail_def split: prod.splits sum.splits)
  from ok obtain u sb where b: "buildPackage ?pk sa = (Inr u, sb)" and t: "tail sb = (Inr (), s')"
    unfolding run by (rule andThen_Inr)
  have "refreshAptRepository (sb\<lparr>out := out sb @ [UnIndent, Put (''done with '' @ quoted ?pk)]\<rparr>) = (Inr (), s')"
    using t by (simp add: tail_def andThen_def unIndent_def put_def ret_def)
  then show thesis
    using that b unfolding sa_def by simp
qed

lemma explicit_run_bumps:
  assumes explicit: "arg_package s = Some x" "x \<noteq> []" "\<not> arg_all s"
    and fresh: "packageList s = []"
    and ctl: "fs_exists (fs s) (getControlFilePath s (deb_sub x))"
    and ok: "doRunSteps s = (Inr (), s')"
    and outside: "\<not> below (dirkey (getWorkingDirFullPath s)) (getControlFilePath s (deb_sub x))"
  shows "\<exists>text t g1 g2 g3.
           map_of (fs s) (getControlFilePath s (deb_sub x)) = Some (File text t) \<and>
           version_search text = Some (g1, g2, g3) \<and>
           map_of (fs s') (getControlFilePath s (deb_sub x)) =
             Some (File (version_sub (g1 @ g2 @ str_of_nat (int_of_digits g3 + 1)) text) (clock s))"
proof -
  let ?pk = "deb_sub x"
  let ?c = "getControlFilePath s ?pk"
  let ?sa = "s\<lparr>packageList := [x], out := out s @ [Indent (''Building package '' @ quoted ?pk)]\<rparr>"
  obtain sb where b: "buildPackage ?pk ?sa = (Inr (), sb)"
    and r: "refreshAptRepository (sb\<lparr>out := out sb @ [UnIndent, Put (''done with '' @ quoted ?pk)]\<rparr>) = (Inr (), s')"
    using explicit_run_steps [OF explicit fresh ok] by blast
  let ?sd = "sb\<lparr>out := out sb @ [UnIndent, Put (''done with '' @ quoted ?pk)]\<rparr>"
  have pa: "getControlFilePath ?sa ?pk = ?c" "getWorkingDirFullPath ?sa = getWorkingDirFullPath s"
    by (simp_all add: getControlFilePath_def getSourceDirFullPath_def getWorkingDirFullPath_def)
  have ctla: "fs_exists (fs ?sa) (getControlFilePath ?sa ?pk)"
    using ctl unfolding pa by simp
  have outa: "\<not> below (dirkey (getWorkingDirFullPath ?sa)) (getControlFilePath ?sa ?pk)"
    using outside unfolding pa .
  obtain body t g1 g2 g3 where old: "map_of (fs ?sa) ?c = Some (File body t)"
    and found: "version_search body = Some (g1, g2, g3)"
    and new: "map_of (fs sb) ?c =
                Some (File (version_sub (g1 @ g2 @ str_of_nat (int_of_digits g3 + 1)) body) (clock ?sa))"
    using buildPackage_writes [OF ctla b outa] unfolding pa by auto
  have ne: "packageList ?sd \<noteq> []"
    using buildPackage_Inr(3) [OF ctla b] by simp
  have "map_of (fs s') ?c = map_of (fs ?sd) ?c \<and> clock s' = Suc (Suc (clock ?sd))"
    by (rule refresh_keeps [OF ne r control_path_apart(3) control_path_apart(4)])
  then have "map_of (fs s') ?c =
      Some (File (version_sub (g1 @ g2 @ str_of_nat (int_of_digits g3 + 1)) body) (clock s))"
    using new by simp
  then show ?thesis
    using old found by auto
qed




subsection \<open>Control files the version step mishandles\<close>

text \<open>
  Claim C1 does not hold of the code. The control file of \<open>a\<close> exists and has no version
  line: \<open>re.search\<close> returns \<open>None\<close>, the attribute access on it raises \<open>AttributeError\<close>, which
  \<open>buildPackage\<close> does not catch. The control file is not written, as the claim says, but
  the package is not reported as skipped and the run ends there: the package \<open>b\<close>, selected
  after \<open>a\<close>, is never built.
\<close>

theorem missing_version_line_aborts_run:
  "fst (doRunSteps (new_builder ''/src'' ''/debs'' False None no_version_fs 2 no_failure)) =
     Inl AttributeError \<and>
   packageList (snd (doRunSteps (new_builder ''/src'' ''/debs'' False None no_version_fs 2 no_failure))) =
     [''a'', ''b''] \<and>
   fs (snd (doRunSteps (new_builder ''/src'' ''/debs'' False None no_version_fs 2 no_failure))) =
     no_version_fs \<and>
   out (snd (doRunSteps (new_builder ''/src'' ''/debs'' False None no_version_fs 2 no_failure))) =
     [Indent (''Building package '' @ quoted ''a'')] \<and>
   trace (snd (doRunSteps (new_builder ''/src'' ''/debs'' False None no_version_fs 2 no_failure))) =
     [CallNeedToRebuild ''a'', CallNeedToRebuild ''b'', CallBuildPackage ''a'']"
  by code_simp

text \<open>
  Claim C5 does not hold of the code. \<open>re.sub\<close> replaces every match of \<open>Version: [\d\.]+\<close>,
  wherever it stands, by the new version line: the value of a \<open>Standards-Version\<close> field is
  overwritten with the package version.
\<close>

theorem version_bump_rewrites_other_lines:
  "fst (incrementPackageVersion ''foo''
          (new_builder ''/src'' ''/debs'' False None two_versions_fs 2 no_failure)) = Inr () \<and>
   map_of (fs (snd (incrementPackageVersion ''foo''
          (new_builder ''/src'' ''/debs'' False None two_versions_fs 2 no_failure))))
     ''/src/foo/DEBIAN/control'' =
     Some (File (''Version: 1.2.4'' @ [newline] @ ''Standards-Version: 1.2.4'' @ [newline]) 2)"
  by code_simp

text \<open>
  Claim C6 does not hold of the code. The pattern of \<open>re.search\<close> is not anchored either: in
  a control file whose \<open>Standards-Version\<close> field stands before the \<open>Version\<close> field, the
  match is found inside \<open>Standards-Version: 3.9.2\<close>. The version step reads \<open>3.9.2\<close> instead
  of the package version \<open>1.2.3\<close> and writes \<open>3.9.3\<close> into both fields: the first two
  components of the package version are replaced and its last component is not incremented.
  A second step writes \<open>3.9.4\<close>.
\<close>

theorem version_bump_reads_other_field:
  "fst (incrementPackageVersion ''foo''
          (new_builder ''/src'' ''/debs'' False None standards_first_fs 2 no_failure)) = Inr () \<and>
   out (snd (incrementPackageVersion ''foo''
          (new_builder ''/src'' ''/debs'' False None standards_first_fs 2 no_failure))) =
     [Put ''incremented package version from 3.9.2 to 3.9.3''] \<and>
   map_of (fs (snd (incrementPackageVersion ''foo''
          (new_builder ''/src'' ''/debs'' False None standards_first_fs 2 no_failure))))
     ''/src/foo/DEBIAN/control'' =
     Some (File (''Standards-Version: 3.9.3'' @ [newline] @ ''Version: 3.9.3'' @ [newline]) 2) \<and>
   map_of (fs (snd (incrementPackageVersion ''foo'' (snd (incrementPackageVersion ''foo''
          (new_builder ''/src'' ''/debs'' False None standards_first_fs 2 no_failure))))))
     ''/src/foo/DEBIAN/control'' =
     Some (File (''Standards-Version: 3.9.4'' @ [newline] @ ''Version: 3.9.4'' @ [newline]) 3)"
  by code_simp

end
